theory Spec2Isabelle
  imports Complex_Main
begin

section \<open>Data model (src/src/models/Url.js)\<close>

text \<open>
  A JavaScript \<^verbatim>\<open>Date\<close> is its number of milliseconds since the epoch, an \<open>int\<close>.
  A value that may be \<^verbatim>\<open>undefined\<close> or \<^verbatim>\<open>null\<close> is an \<open>option\<close>. Strings are
  \<open>string\<close>. An ObjectId is the string its \<^verbatim>\<open>toString()\<close> gives.
\<close>

record click =
  timestamp :: int
  ipAddress :: "string option"
  userAgent :: "string option"
  referer :: "string option"

record url =
  userId :: string
  urlCode :: string
  longUrl :: string
  shortUrl :: string
  qrCode :: string
  clicks :: nat
  analytics :: "click list"
  createdAt :: int
  expiresAt :: "int option"
  isExpired :: bool

text \<open>
  The errors the service throws, one constructor per \<^verbatim>\<open>throw\<close> or failing call:
  \<^item> \<open>InvalidAliasFormat\<close>: 'Custom alias can only contain letters, numbers, hyphens, and underscores'
  \<^item> \<open>AliasAlreadyInUse\<close>: 'Custom alias already in use'
  \<^item> \<open>QrError\<close>: \<^verbatim>\<open>QRCode.toDataURL\<close> throws (the text exceeds what a QR code holds)
  \<^item> \<open>ValidationError\<close>: \<^verbatim>\<open>url.save()\<close> rejects a document whose required string is empty,
    whose userId cannot be cast to an ObjectId or whose expiresAt is an Invalid Date
  \<^item> \<open>DuplicateKey\<close>: \<^verbatim>\<open>url.save()\<close> rejects an insert that breaks the unique index on urlCode
  \<^item> \<open>NotFound\<close>: 'URL not found' (getUrl, getUrlStats), 'No such URL' (deleteUrl)
  \<^item> \<open>Expired\<close>: 'URL has expired'
  \<^item> \<open>NotAuthorized\<close>: 'Not authorized'
  \<^item> \<open>TypeError\<close>: a method called on \<^verbatim>\<open>undefined\<close> or \<^verbatim>\<open>null\<close>
\<close>

datatype error =
    InvalidAliasFormat
  | AliasAlreadyInUse
  | QrError
  | ValidationError
  | DuplicateKey
  | NotFound
  | Expired
  | NotAuthorized
  | TypeError

text \<open>
  The state of the service: the Url collection of the database, keyed by urlCode (the
  schema's unique index), and \<^verbatim>\<open>this.cache\<close>, a \<^verbatim>\<open>Map\<close> from urlCode to a document.
  A cached document is the copy the service held when it stored it in the cache.
\<close>

record service =
  store :: "string \<rightharpoonup> url"
  cache :: "string \<rightharpoonup> url"

definition init :: service where
  "init = \<lparr>store = Map.empty, cache = Map.empty\<rparr>"

text \<open>
  What the service reads from outside the repository's code:
  \<^item> \<^verbatim>\<open>config.baseUrl\<close>;
  \<^item> \<^verbatim>\<open>QRCode.toDataURL\<close>, \<open>None\<close> where the call throws;
  \<^item> the cast of a userId to the schema's type ObjectId, as the string its
    \<^verbatim>\<open>toString()\<close> gives, \<open>None\<close> where the value is no ObjectId;
  \<^item> the calendar date of a timestamp, \<^verbatim>\<open>timestamp.toISOString().split('T')[0]\<close>.
\<close>

record env =
  baseUrl :: string
  toDataURL :: "string \<Rightarrow> string option"
  castObjectId :: "string \<Rightarrow> string option"
  toISODate :: "int \<Rightarrow> string"

section \<open>The schema, the pre-save hook and url.save() (src/src/models/Url.js)\<close>

definition validDate :: "int \<Rightarrow> bool" where
  \<comment> \<open>A Date holds a time value of at most 8.64e15 ms either side of the epoch; a value
      outside stands for an Invalid Date (what \<^verbatim>\<open>new Date(NaN)\<close> and a sum out of range
      give).\<close>
  "validDate t = (\<bar>t\<bar> \<le> 8640000000000000)"

definition newUrl ::
  "env \<Rightarrow> int \<Rightarrow> string \<Rightarrow> string \<Rightarrow> string \<Rightarrow> string \<Rightarrow> string \<Rightarrow> int option \<Rightarrow> url option" where
  \<comment> \<open>\<^verbatim>\<open>new Url({urlCode, longUrl, shortUrl, qrCode, expiresAt, userId})\<close> with the
      schema's defaults (lines 14-60); \<open>None\<close> when userId or expiresAt cannot be cast to
      the type of its path, which \<^verbatim>\<open>url.save()\<close> reports as a validation failure.\<close>
  "newUrl E now userId' code longUrl' short qr expiresAt' =
     (case castObjectId E userId' of
        None \<Rightarrow> None
      | Some oid \<Rightarrow>
          if (case expiresAt' of None \<Rightarrow> False | Some t \<Rightarrow> \<not> validDate t) then None
          else Some \<lparr>userId = oid, urlCode = code, longUrl = longUrl', shortUrl = short,
                      qrCode = qr, clicks = 0, analytics = [], createdAt = now,
                      expiresAt = expiresAt', isExpired = False\<rparr>)"

definition pastDeadline :: "int \<Rightarrow> url \<Rightarrow> bool" where
  \<comment> \<open>\<^verbatim>\<open>this.expiresAt && new Date() > this.expiresAt\<close>\<close>
  "pastDeadline now u = (case expiresAt u of None \<Rightarrow> False | Some t \<Rightarrow> now > t)"

definition preSave :: "int \<Rightarrow> url \<Rightarrow> url" where
  "preSave now u = (if pastDeadline now u then u\<lparr>isExpired := True\<rparr> else u)"

definition saveNew :: "int \<Rightarrow> url \<Rightarrow> service \<Rightarrow> error + url \<times> service" where
  \<comment> \<open>\<^verbatim>\<open>url.save()\<close> of a new document: validation of the required strings, the pre-save
      hook, then the insert, which the unique index on urlCode can reject.\<close>
  "saveNew now u s =
     (if longUrl u = [] \<or> urlCode u = [] \<or> shortUrl u = [] \<or> qrCode u = [] then Inl ValidationError
      else let u' = preSave now u in
        if store s (urlCode u') \<noteq> None then Inl DuplicateKey
        else Inr (u', s\<lparr>store := (store s)(urlCode u' \<mapsto> u')\<rparr>))"

definition saveExisting :: "int \<Rightarrow> url \<Rightarrow> service \<Rightarrow> service" where
  \<comment> \<open>\<^verbatim>\<open>url.save()\<close> of a document read from the store: the pre-save hook, then the write.\<close>
  "saveExisting now u s = s\<lparr>store := (store s)(urlCode u \<mapsto> preSave now u)\<rparr>"

section \<open>UrlService (src/src/middleware/rateLimiter.js, lines 38-267)\<close>

subsection \<open>createShortUrl (lines 43-80)\<close>

definition aliasChars :: string where
  "aliasChars = ''abcdefghijklmnopqrstuvwxyz'' @ ''ABCDEFGHIJKLMNOPQRSTUVWXYZ'' @ ''0123456789'' @ ''-_''"

definition aliasFormat :: "string \<Rightarrow> bool" where
  \<comment> \<open>\<^verbatim>\<open>/^[a-zA-Z0-9-_]+$/.test(customAlias)\<close>\<close>
  "aliasFormat a = (a \<noteq> [] \<and> list_all (\<lambda>c. c \<in> set aliasChars) a)"

definition truthy :: "string option \<Rightarrow> bool" where
  \<comment> \<open>a string is truthy unless it is undefined, null or empty\<close>
  "truthy x = (case x of None \<Rightarrow> False | Some a \<Rightarrow> a \<noteq> [])"

definition createShortUrl ::
  "env \<Rightarrow> int \<Rightarrow> string \<Rightarrow> string \<Rightarrow> string option \<Rightarrow> int option \<Rightarrow> string \<Rightarrow> service
    \<Rightarrow> (error + url) \<times> service" where
  \<comment> \<open>\<open>now\<close> is the clock during the call and \<open>gen\<close> what \<^verbatim>\<open>nanoid(8)\<close> returns if it is called.\<close>
  "createShortUrl E now gen longUrl' customAlias expiresAt' userId' s =
     (let code = (if truthy customAlias then the customAlias else gen) in
      if truthy customAlias \<and> \<not> aliasFormat (the customAlias) then (Inl InvalidAliasFormat, s)
      else if truthy customAlias \<and> store s (the customAlias) \<noteq> None then (Inl AliasAlreadyInUse, s)
      else
        let short = baseUrl E @ ''/'' @ code in
        case toDataURL E short of
          None \<Rightarrow> (Inl QrError, s)
        | Some qr \<Rightarrow>
            (case newUrl E now userId' code longUrl' short qr expiresAt' of
               None \<Rightarrow> (Inl ValidationError, s)
             | Some u \<Rightarrow>
                 (case saveNew now u s of
                    Inl e \<Rightarrow> (Inl e, s)
                  | Inr (u', s') \<Rightarrow> (Inr u', s'\<lparr>cache := (cache s')(code \<mapsto> u')\<rparr>))))"

subsection \<open>getUrl (lines 82-110)\<close>

definition cacheGet :: "int \<Rightarrow> string \<Rightarrow> service \<Rightarrow> url option \<times> service" where
  \<comment> \<open>lines 84-91: the cached document if it is fresh; otherwise the entry is deleted\<close>
  "cacheGet now code s =
     (case cache s code of
        None \<Rightarrow> (None, s)
      | Some cachedUrl \<Rightarrow>
          if \<not> isExpired cachedUrl \<and> (case expiresAt cachedUrl of None \<Rightarrow> True | Some t \<Rightarrow> now < t)
          then (Some cachedUrl, s)
          else (None, s\<lparr>cache := (cache s)(code := None)\<rparr>))"

definition storeLookup :: "int \<Rightarrow> string \<Rightarrow> service \<Rightarrow> (error + url) \<times> service" where
  \<comment> \<open>lines 93-106\<close>
  "storeLookup now code s =
     (case store s code of
        None \<Rightarrow> (Inl NotFound, s)
      | Some u \<Rightarrow>
          if isExpired u \<or> pastDeadline now u
          then (Inl Expired, saveExisting now (u\<lparr>isExpired := True\<rparr>) s)
          else (Inr u, s\<lparr>cache := (cache s)(code \<mapsto> u)\<rparr>))"

definition getUrl :: "int \<Rightarrow> string \<Rightarrow> service \<Rightarrow> (error + url) \<times> service" where
  "getUrl now code s =
     (case cacheGet now code s of
        (Some cachedUrl, s') \<Rightarrow> (Inr cachedUrl, s')
      | (None, s') \<Rightarrow> storeLookup now code s')"

subsection \<open>trackClick (lines 112-139)\<close>

record req_data =
  reqIp :: "string option"
  reqUserAgent :: "string option"
  reqReferer :: "string option"

definition clickOf :: "int \<Rightarrow> req_data \<Rightarrow> click" where
  \<comment> \<open>the event pushed to analytics, lines 119-124\<close>
  "clickOf now reqData =
     \<lparr>timestamp = now, ipAddress = reqIp reqData, userAgent = reqUserAgent reqData,
      referer = reqReferer reqData\<rparr>"

definition findOneAndUpdate :: "int \<Rightarrow> string \<Rightarrow> req_data \<Rightarrow> service \<Rightarrow> url option \<times> service" where
  \<comment> \<open>lines 114-128: one update of the store, returning the updated document (\<^verbatim>\<open>new: true\<close>)\<close>
  "findOneAndUpdate now code reqData s =
     (case store s code of
        None \<Rightarrow> (None, s)
      | Some u \<Rightarrow>
          let u' = u\<lparr>clicks := clicks u + 1, analytics := analytics u @ [clickOf now reqData]\<rparr>
          in (Some u', s\<lparr>store := (store s)(code \<mapsto> u')\<rparr>))"

definition cacheRefresh :: "string \<Rightarrow> url option \<Rightarrow> service \<Rightarrow> service" where
  \<comment> \<open>lines 130-133: \<^verbatim>\<open>if (url) this.cache.set(urlCode, url)\<close>\<close>
  "cacheRefresh code r s = (case r of None \<Rightarrow> s | Some u \<Rightarrow> s\<lparr>cache := (cache s)(code \<mapsto> u)\<rparr>)"

definition trackClick :: "int \<Rightarrow> string \<Rightarrow> req_data \<Rightarrow> service \<Rightarrow> url option \<times> service" where
  "trackClick now code reqData s =
     (case findOneAndUpdate now code reqData s of (r, s') \<Rightarrow> (r, cacheRefresh code r s'))"

subsection \<open>deleteUrl (lines 242-266)\<close>

definition deleteUrl :: "string \<Rightarrow> string \<Rightarrow> service \<Rightarrow> (error + url) \<times> service" where
  "deleteUrl code requestUserId s =
     (case store s code of
        None \<Rightarrow> (Inl NotFound, s)
      | Some u \<Rightarrow>
          if userId u \<noteq> requestUserId then (Inl NotAuthorized, s)
          else (Inr u, s\<lparr>store := (store s)(code := None)\<rparr>))"

subsection \<open>createBulkUrls (lines 202-228)\<close>

text \<open>
  An element of \<^verbatim>\<open>urls\<close>: an object with the fields longUrl, customAlias and expiresAt.
  urlValidator (src/src/middleware/urlValidator.js, lines 13-22) lets a batch through
  only if every element is an object with a longUrl.
\<close>

record bulk_item =
  itemLongUrl :: string
  itemCustomAlias :: "string option"
  itemExpiresAt :: "int option"

text \<open>
  An element of the result array: \<^verbatim>\<open>{success: true, originalUrl, shortUrl}\<close> or
  \<^verbatim>\<open>{success: false, originalUrl, error}\<close>.
\<close>

datatype outcome =
    Created (originalUrl: string) string
  | Failed (originalUrl: string) error

definition success :: "outcome \<Rightarrow> bool" where
  "success r = (case r of Created _ _ \<Rightarrow> True | Failed _ _ \<Rightarrow> False)"

fun bulkLoop ::
  "env \<Rightarrow> int \<Rightarrow> (nat \<Rightarrow> string) \<Rightarrow> nat \<Rightarrow> bulk_item list \<Rightarrow> string \<Rightarrow> outcome list \<Rightarrow> service
    \<Rightarrow> outcome list \<times> service" where
  "bulkLoop E now gens i [] uid results s = (results, s)"
| "bulkLoop E now gens i (item # items) uid results s =
     (case createShortUrl E now (gens i) (itemLongUrl item) (itemCustomAlias item)
             (itemExpiresAt item) uid s of
        (Inr u, s') \<Rightarrow>
          bulkLoop E now gens (Suc i) items uid (results @ [Created (itemLongUrl item) (shortUrl u)]) s'
      | (Inl e, s') \<Rightarrow>
          bulkLoop E now gens (Suc i) items uid (results @ [Failed (itemLongUrl item) e]) s')"

definition createBulkUrls ::
  "env \<Rightarrow> int \<Rightarrow> (nat \<Rightarrow> string) \<Rightarrow> bulk_item list \<Rightarrow> string \<Rightarrow> service \<Rightarrow> outcome list \<times> service" where
  \<comment> \<open>\<open>gens i\<close> is what \<^verbatim>\<open>nanoid(8)\<close> returns during the iteration for item \<open>i\<close>, if it is called.\<close>
  "createBulkUrls E now gens urls uid s = bulkLoop E now gens 0 urls uid [] s"

subsection \<open>JavaScript numbers: division, Math.ceil, toFixed(2)\<close>

text \<open>
  A finite Number is the rational it denotes. \<open>round64\<close> rounds a rational to the
  nearest binary64 value, ties to the even significand (exponent range unbounded: the
  quotients below are far from overflow and underflow). The operator \<^verbatim>\<open>/\<close> returns the
  rounded exact quotient.
\<close>

function bits :: "int \<Rightarrow> nat" where
  \<comment> \<open>the number of binary digits of a positive integer\<close>
  "bits n = (if n \<le> 0 then 0 else Suc (bits (n div 2)))"
  by pat_completeness auto
termination
  by (relation "measure nat") auto

declare bits.simps [simp del]

definition pow2 :: "int \<Rightarrow> rat" where
  "pow2 k = (if 0 \<le> k then 2 ^ nat k else 1 / 2 ^ nat (- k))"

definition roundHalfEven :: "rat \<Rightarrow> int" where
  "roundHalfEven x =
     (let f = \<lfloor>x\<rfloor>; d = x - of_int f in
      if d < 1 / 2 then f else if 1 / 2 < d then f + 1 else if even f then f else f + 1)"

definition shift64 :: "rat \<Rightarrow> int" where
  \<comment> \<open>for \<open>0 < x\<close>: the \<open>k\<close> with \<open>2^52 \<le> x * 2^k < 2^53\<close>\<close>
  "shift64 x =
     (case quotient_of x of (n, d) \<Rightarrow>
        let k = 53 - (int (bits n) - int (bits d)) in
        if 2 ^ 53 \<le> x * pow2 k then k - 1 else k)"

definition round64 :: "rat \<Rightarrow> rat" where
  "round64 x =
     (if x = 0 then 0
      else let k = shift64 \<bar>x\<bar> in sgn x * of_int (roundHalfEven (\<bar>x\<bar> * pow2 k)) / pow2 k)"

definition jsDiv :: "int \<Rightarrow> int \<Rightarrow> rat" where
  \<comment> \<open>\<^verbatim>\<open>a / b\<close> on integer-valued Numbers, \<open>b \<noteq> 0\<close>\<close>
  "jsDiv a b = round64 (of_int a / of_int b)"

definition toFixed2 :: "rat \<Rightarrow> int" where
  \<comment> \<open>\<^verbatim>\<open>x.toFixed(2)\<close> for \<open>0 \<le> x < 10^21\<close>, as the number of hundredths \<open>n\<close> its digits
      spell: the integer for which \<open>n / 100 - x\<close> is closest to zero, the larger of two.\<close>
  "toFixed2 x = \<lfloor>100 * x + 1 / 2\<rfloor>"

subsection \<open>getUrlStats and getBrowserFromUserAgent (lines 141-200)\<close>

text \<open>
  A statistics object starts as \<^verbatim>\<open>{}\<close> and is only written by
  \<^verbatim>\<open>obj[k] = (obj[k] || 0) + 1\<close>. It is modelled by its own properties (their order of
  enumeration, which is all the final sort of clicksByDate changes, is not
  represented). A property holds a count or, after \<^verbatim>\<open>+ 1\<close> was applied to a value that
  is not a number, a string. Reading a key the object does not own gives the value
  inherited from \<^verbatim>\<open>Object.prototype\<close> if the key names one.
\<close>

datatype jsval = Num nat | NotNum

type_synonym tally = "string \<rightharpoonup> jsval"

definition objectPrototypeKeys :: "string list" where
  "objectPrototypeKeys =
     [''constructor'', ''__defineGetter__'', ''__defineSetter__'', ''hasOwnProperty'',
      ''__lookupGetter__'', ''__lookupSetter__'', ''isPrototypeOf'', ''propertyIsEnumerable'',
      ''toString'', ''valueOf'', ''__proto__'', ''toLocaleString'']"

definition bump :: "tally \<Rightarrow> string \<Rightarrow> tally" where
  \<comment> \<open>\<^verbatim>\<open>obj[k] = (obj[k] || 0) + 1\<close>. An inherited value is an object or a function:
      truthy, and \<^verbatim>\<open>+ 1\<close> makes a string of it. Assigning a string to \<^verbatim>\<open>__proto__\<close>
      is ignored by its setter.\<close>
  "bump obj k =
     (case obj k of
        Some (Num n) \<Rightarrow> obj(k \<mapsto> Num (n + 1))
      | Some NotNum \<Rightarrow> obj(k \<mapsto> NotNum)
      | None \<Rightarrow>
          if k \<in> set objectPrototypeKeys
          then (if k = ''__proto__'' then obj else obj(k \<mapsto> NotNum))
          else obj(k \<mapsto> Num 1))"

definition includesStr :: "string \<Rightarrow> string \<Rightarrow> bool" where
  \<comment> \<open>\<^verbatim>\<open>s.includes(pat)\<close>: \<open>pat\<close> occurs in \<open>s\<close> at some position\<close>
  "includesStr s pat = list_ex (\<lambda>i. take (length pat) (drop i s) = pat) [0..<Suc (length s)]"

definition getBrowserFromUserAgent :: "string option \<Rightarrow> error + string" where
  "getBrowserFromUserAgent ua =
     (case ua of
        None \<Rightarrow> Inl TypeError
      | Some a \<Rightarrow>
          Inr (if includesStr a ''Chrome'' then ''Chrome''
               else if includesStr a ''Firefox'' then ''Firefox''
               else if includesStr a ''Safari'' then ''Safari''
               else if includesStr a ''Edge'' then ''Edge''
               else ''Other''))"

datatype average = Number0 | Fixed2 int

record stats =
  totalClicks :: nat
  browserStats :: tally
  referrerStats :: tally
  clicksByDate :: tally
  lastClicked :: "int option"
  averageClicksPerDay :: average

definition referrerOf :: "click \<Rightarrow> string" where
  \<comment> \<open>\<^verbatim>\<open>click.referer || 'Direct'\<close>\<close>
  "referrerOf c = (if truthy (referer c) then the (referer c) else ''Direct'')"

definition countClick :: "env \<Rightarrow> click \<Rightarrow> stats \<Rightarrow> error + stats" where
  \<comment> \<open>the body of the \<^verbatim>\<open>forEach\<close>, lines 170-180\<close>
  "countClick E c a =
     (case getBrowserFromUserAgent (userAgent c) of
        Inl e \<Rightarrow> Inl e
      | Inr browser \<Rightarrow>
          Inr (a\<lparr>browserStats := bump (browserStats a) browser,
                 referrerStats := bump (referrerStats a) (referrerOf c),
                 clicksByDate := bump (clicksByDate a) (toISODate E (timestamp c))\<rparr>))"

fun forEachClick :: "env \<Rightarrow> click list \<Rightarrow> stats \<Rightarrow> error + stats" where
  "forEachClick E [] a = Inr a"
| "forEachClick E (c # cs) a =
     (case countClick E c a of Inl e \<Rightarrow> Inl e | Inr a' \<Rightarrow> forEachClick E cs a')"

definition daysSinceCreation :: "int \<Rightarrow> int \<Rightarrow> int" where
  \<comment> \<open>lines 163-165; \<open>first\<close> is the timestamp of the first click\<close>
  "daysSinceCreation now first = max 1 \<lceil>jsDiv (now - first) (1000 * 60 * 60 * 24)\<rceil>"

definition getUrlStats :: "env \<Rightarrow> int \<Rightarrow> string \<Rightarrow> service \<Rightarrow> error + stats" where
  "getUrlStats E now code s =
     (case store s code of
        None \<Rightarrow> Inl NotFound
      | Some u \<Rightarrow>
          let a0 = \<lparr>totalClicks = clicks u, browserStats = Map.empty, referrerStats = Map.empty,
                    clicksByDate = Map.empty, lastClicked = None, averageClicksPerDay = Number0\<rparr>;
              a1 = (if analytics u \<noteq> []
                    then a0\<lparr>lastClicked := Some (timestamp (last (analytics u))),
                            averageClicksPerDay :=
                              Fixed2 (toFixed2 (jsDiv (int (clicks u))
                                (daysSinceCreation now (timestamp (hd (analytics u))))))\<rparr>
                    else a0)
          in forEachClick E (analytics u) a1)"

subsection \<open>The service as a state machine\<close>

text \<open>
  One request to the service. getUrlStats and getAllUrls (lines 230-240) only read the
  store.
\<close>

datatype op =
    CreateShortUrl string string "string option" "int option" string
  | GetUrl string
  | TrackClick string req_data
  | GetUrlStats string
  | CreateBulkUrls "nat \<Rightarrow> string" "bulk_item list" string
  | GetAllUrls string
  | DeleteUrl string string

fun exec :: "env \<Rightarrow> int \<Rightarrow> op \<Rightarrow> service \<Rightarrow> service" where
  "exec E now (CreateShortUrl gen l a x uid) s = snd (createShortUrl E now gen l a x uid s)"
| "exec E now (GetUrl code) s = snd (getUrl now code s)"
| "exec E now (TrackClick code reqData) s = snd (trackClick now code reqData s)"
| "exec E now (GetUrlStats code) s = s"
| "exec E now (CreateBulkUrls gens urls uid) s = snd (createBulkUrls E now gens urls uid s)"
| "exec E now (GetAllUrls uid) s = s"
| "exec E now (DeleteUrl code uid) s = snd (deleteUrl code uid s)"

fun run :: "env \<Rightarrow> (int \<times> op) list \<Rightarrow> service \<Rightarrow> service" where
  "run E [] s = s"
| "run E ((now, x) # xs) s = run E xs (exec E now x s)"

inductive reachable :: "env \<Rightarrow> service \<Rightarrow> bool" for E :: env where
  reachable_init: "reachable E init"
| reachable_step: "reachable E s \<Longrightarrow> reachable E (exec E now x s)"

fun deletes :: "string \<Rightarrow> op \<Rightarrow> bool" where
  "deletes code (DeleteUrl code' uid) = (code' = code)"
| "deletes code _ = False"

section \<open>Notions used in the statements and proofs\<close>

definition bulkStep :: "env \<Rightarrow> int \<Rightarrow> string \<Rightarrow> bulk_item \<Rightarrow> string \<Rightarrow> service \<Rightarrow> outcome" where
  \<comment> \<open>the element one iteration of createBulkUrls pushes (lines 213-223)\<close>
  "bulkStep E now gen item uid s =
     (case fst (createShortUrl E now gen (itemLongUrl item) (itemCustomAlias item)
                  (itemExpiresAt item) uid s) of
        Inr u \<Rightarrow> Created (itemLongUrl item) (shortUrl u)
      | Inl e \<Rightarrow> Failed (itemLongUrl item) e)"

definition createdCode :: "string option \<Rightarrow> string \<Rightarrow> string" where
  \<comment> \<open>\<^verbatim>\<open>customAlias || nanoid(8)\<close>, line 45\<close>
  "createdCode a gen = (if truthy a then the a else gen)"

definition fresh :: "int \<Rightarrow> url \<Rightarrow> bool" where
  \<comment> \<open>the test of line 87\<close>
  "fresh now v = (\<not> isExpired v \<and> (case expiresAt v of None \<Rightarrow> True | Some t \<Rightarrow> now < t))"

text \<open>
  What holds of the store and the cache at one code in every state the service reaches:
  a stored document is stored under its own urlCode, a document counts as many clicks
  as its log is long, and a cached document has the deadline of the stored one and no
  more clicks.
\<close>

definition coherentAt :: "string \<Rightarrow> url option \<Rightarrow> url option \<Rightarrow> bool" where
  "coherentAt code stored cached =
     ((case cached of None \<Rightarrow> True | Some v \<Rightarrow> clicks v = length (analytics v)) \<and>
      (case stored of
         None \<Rightarrow> True
       | Some u \<Rightarrow>
           urlCode u = code \<and> clicks u = length (analytics u) \<and>
           (case cached of
              None \<Rightarrow> True
            | Some v \<Rightarrow> expiresAt v = expiresAt u \<and> clicks v \<le> clicks u)))"

definition coherent :: "service \<Rightarrow> bool" where
  "coherent s = (\<forall>code. coherentAt code (store s code) (cache s code))"

text \<open>
  A code whose stored document carries the flag isExpired, in a coherent state whose
  cache holds no unflagged document for it.
\<close>

definition flaggedAt :: "string \<Rightarrow> service \<Rightarrow> bool" where
  "flaggedAt code s =
     (coherent s \<and> (\<exists>u. store s code = Some u \<and> isExpired u) \<and>
      (case cache s code of None \<Rightarrow> True | Some v \<Rightarrow> isExpired v))"

definition browserOf :: "click \<Rightarrow> string" where
  \<comment> \<open>the label of a click that has a userAgent\<close>
  "browserOf c = (case getBrowserFromUserAgent (userAgent c) of Inr b \<Rightarrow> b | Inl e \<Rightarrow> [])"

definition countAs :: "nat \<Rightarrow> jsval option" where
  \<comment> \<open>a statistics object holds a key only for a count above 0\<close>
  "countAs n = (if n = 0 then None else Some (Num n))"

section \<open>Concrete runs\<close>

text \<open>
  A stand-in for the environment, and a run of the service from its initial state: a
  short URL with the alias abc, created at time 0 by the user \<open>userA\<close> with the deadline
  100.
\<close>

definition lowerHex :: "char \<Rightarrow> char" where
  "lowerHex c = (case map_of (zip ''ABCDEF'' ''abcdef'') c of None \<Rightarrow> c | Some d \<Rightarrow> d)"

definition demoCast :: "string \<Rightarrow> string option" where
  \<comment> \<open>a string of 24 hexadecimal digits is an ObjectId, printed in lower case\<close>
  "demoCast s =
     (if length s = 24 \<and> list_all (\<lambda>c. c \<in> set ''0123456789abcdefABCDEF'') s
      then Some (map lowerHex s) else None)"

definition demoEnv :: env where
  "demoEnv = \<lparr>baseUrl = ''http://sho.rt'', toDataURL = (\<lambda>s. Some (''data:'' @ s)),
              castObjectId = demoCast, toISODate = (\<lambda>t. ''1970-01-01'')\<rparr>"

abbreviation userA :: string where
  "userA \<equiv> ''64b7f3a1c2d4e5f601234567''"

abbreviation userB :: string where
  "userB \<equiv> ''64b7f3a1c2d4e5f6012345ff''"

definition demoUrl :: url where
  "demoUrl = \<lparr>userId = userA, urlCode = ''abc'', longUrl = ''https://example.com'',
     shortUrl = ''http://sho.rt/abc'', qrCode = ''data:http://sho.rt/abc'', clicks = 0,
     analytics = [], createdAt = 0, expiresAt = Some 100, isExpired = False\<rparr>"

definition demoCreated :: service where
  "demoCreated =
     snd (createShortUrl demoEnv 0 ''Ab3dE6gH'' ''https://example.com'' (Some ''abc'') (Some 100)
            userA init)"

definition noUserAgent :: req_data where
  \<comment> \<open>a redirect request without the headers User-Agent and Referer\<close>
  "noUserAgent = \<lparr>reqIp = Some ''10.0.0.1'', reqUserAgent = None, reqReferer = None\<rparr>"

text \<open>A batch of two items: the first has a malformed alias, the second none.\<close>

definition demoItems :: "bulk_item list" where
  "demoItems =
     [\<lparr>itemLongUrl = ''https://a.example'', itemCustomAlias = Some ''not ok!'', itemExpiresAt = None\<rparr>,
      \<lparr>itemLongUrl = ''https://b.example'', itemCustomAlias = None, itemExpiresAt = None\<rparr>]"

text \<open>A redirect request sent by a Chrome browser from a search result.\<close>

definition chromeRequest :: req_data where
  "chromeRequest = \<lparr>reqIp = Some ''10.0.0.1'',
     reqUserAgent = Some ''Mozilla/5.0 (Windows NT 10.0; Win64; x64) Chrome/96.0.4664.110'',
     reqReferer = Some ''https://google.com''\<rparr>"

text \<open>
  Two clicks on abc whose store updates complete in one order and whose cache
  refreshes run in the other: the first update, the second update, the refresh of the
  second click, the refresh of the first click.
\<close>

definition firstUpdate :: "url option \<times> service" where
  "firstUpdate = findOneAndUpdate 1 ''abc'' chromeRequest demoCreated"

definition secondUpdate :: "url option \<times> service" where
  "secondUpdate = findOneAndUpdate 2 ''abc'' chromeRequest (snd firstUpdate)"

definition secondRefreshed :: service where
  "secondRefreshed = cacheRefresh ''abc'' (fst secondUpdate) (snd secondUpdate)"

definition firstRefreshed :: service where
  "firstRefreshed = cacheRefresh ''abc'' (fst firstUpdate) secondRefreshed"

text \<open>Two clicks on abc: one from Chrome, one without the header User-Agent.\<close>

definition mixedClicks :: service where
  "mixedClicks =
     snd (trackClick 2 ''abc'' noUserAgent (snd (trackClick 1 ''abc'' chromeRequest demoCreated)))"

text \<open>One click on abc, from Chrome at time 1.\<close>

definition oneClick :: service where
  "oneClick = snd (trackClick 1 ''abc'' chromeRequest demoCreated)"

section \<open>Properties\<close>

lemma demoCreated_eq:
  "demoCreated = \<lparr>store = [''abc'' \<mapsto> demoUrl], cache = [''abc'' \<mapsto> demoUrl]\<rparr>"
  by (simp add: demoCreated_def createShortUrl_def truthy_def aliasFormat_def aliasChars_def
      saveNew_def newUrl_def validDate_def demoCast_def lowerHex_def preSave_def pastDeadline_def init_def demoEnv_def demoUrl_def Let_def)

subsection \<open>The cache never returns an expired document\<close>

text \<open>
  C6: for every code and every cache state, the cache step of getUrl (lines 84-91) never
  returns an expired document. If the cached document's flag isExpired is set or its
  deadline expiresAt has passed, the entry is deleted from the cache and getUrl goes on
  to the store exactly as it does when the cache has no entry for the code. A document
  that the cache step does return is not flagged and its deadline, if any, lies ahead.
\<close>

theorem cacheGet_never_returns_expired:
  "(cache s code = Some u \<and> (isExpired u \<or> (\<exists>t. expiresAt u = Some t \<and> t < now)) \<longrightarrow>
      cacheGet now code s = (None, s\<lparr>cache := (cache s)(code := None)\<rparr>) \<and>
      getUrl now code s = storeLookup now code (s\<lparr>cache := (cache s)(code := None)\<rparr>) \<and>
      getUrl now code s = getUrl now code (s\<lparr>cache := (cache s)(code := None)\<rparr>))
   \<and> (\<forall>v s'. cacheGet now code s = (Some v, s') \<longrightarrow>
         \<not> isExpired v \<and> (\<forall>t. expiresAt v = Some t \<longrightarrow> now < t))"
  by (auto simp: cacheGet_def getUrl_def split: option.splits if_splits)

theorem cacheGet_never_returns_expired_witness:
  "cache \<lparr>store = Map.empty, cache = [''abc'' \<mapsto> demoUrl]\<rparr> ''abc'' = Some demoUrl
   \<and> (\<exists>t. expiresAt demoUrl = Some t \<and> t < 101)
   \<and> cacheGet 101 ''abc'' \<lparr>store = Map.empty, cache = [''abc'' \<mapsto> demoUrl]\<rparr>
       = (None, \<lparr>store = Map.empty, cache = Map.empty\<rparr>)
   \<and> getUrl 101 ''abc'' \<lparr>store = Map.empty, cache = [''abc'' \<mapsto> demoUrl]\<rparr>
       = (Inl NotFound, \<lparr>store = Map.empty, cache = Map.empty\<rparr>)
   \<and> cacheGet 99 ''abc'' \<lparr>store = Map.empty, cache = [''abc'' \<mapsto> demoUrl]\<rparr>
       = (Some demoUrl, \<lparr>store = Map.empty, cache = [''abc'' \<mapsto> demoUrl]\<rparr>)
   \<and> \<not> isExpired demoUrl"
  using
    cacheGet_never_returns_expired
      [of "\<lparr>store = Map.empty, cache = [''abc'' \<mapsto> demoUrl]\<rparr>" "''abc''" demoUrl 101]
    cacheGet_never_returns_expired
      [of "\<lparr>store = Map.empty, cache = [''abc'' \<mapsto> demoUrl]\<rparr>" "''abc''" demoUrl 99]
  by (simp add: demoUrl_def storeLookup_def cacheGet_def)

subsection \<open>Statistics over a click without a User-Agent\<close>

lemma countClick_error: "countClick E c a = Inl e \<Longrightarrow> e = TypeError \<and> userAgent c = None"
  by (auto simp: countClick_def getBrowserFromUserAgent_def split: option.splits sum.splits)

lemma countClick_absent: "userAgent c = None \<Longrightarrow> countClick E c a = Inl TypeError"
  by (simp add: countClick_def getBrowserFromUserAgent_def)

lemma forEachClick_absent:
  "\<exists>c \<in> set cs. userAgent c = None \<Longrightarrow> forEachClick E cs a = Inl TypeError"
proof (induction cs arbitrary: a)
  case Nil
  then show ?case by simp
next
  case (Cons c cs)
  show ?case
  proof (cases "countClick E c a")
    case (Inl e)
    then show ?thesis using countClick_error [OF Inl] by simp
  next
    case (Inr a')
    then have "userAgent c \<noteq> None" using countClick_absent [of c E a] by auto
    with Cons.prems have "\<exists>c \<in> set cs. userAgent c = None" by auto
    then show ?thesis using Cons.IH Inr by simp
  qed
qed

text \<open>
  C10: when the click log of a stored document holds an event whose userAgent is absent,
  getUrlStats fails (the classifier calls \<^verbatim>\<open>includes\<close> on the absent value) instead of
  counting the event as Other. trackClick records such an event for a request that
  carries no User-Agent header, so the statistics of the code fail from then on.
\<close>

theorem getUrlStats_absent_userAgent:
  assumes "store s code = Some u"
  shows "((\<exists>c \<in> set (analytics u). userAgent c = None)
           \<longrightarrow> getUrlStats E now code s = Inl TypeError)
       \<and> (reqUserAgent reqData = None
           \<longrightarrow> getUrlStats E now code (snd (trackClick t code reqData s)) = Inl TypeError)"
proof (intro conjI impI)
  assume "\<exists>c \<in> set (analytics u). userAgent c = None"
  then show "getUrlStats E now code s = Inl TypeError"
    using assms by (simp add: getUrlStats_def Let_def forEachClick_absent)
next
  assume ua: "reqUserAgent reqData = None"
  let ?u = "u\<lparr>clicks := clicks u + 1, analytics := analytics u @ [clickOf t reqData]\<rparr>"
  have st: "store (snd (trackClick t code reqData s)) code = Some ?u"
    using assms by (simp add: trackClick_def findOneAndUpdate_def cacheRefresh_def Let_def)
  have "\<exists>c \<in> set (analytics ?u). userAgent c = None" using ua by (simp add: clickOf_def)
  then show "getUrlStats E now code (snd (trackClick t code reqData s)) = Inl TypeError"
    using st by (simp add: getUrlStats_def Let_def forEachClick_absent del: Set.bex_simps)
qed

theorem getUrlStats_absent_userAgent_witness:
  "store demoCreated ''abc'' = Some demoUrl \<and> reqUserAgent noUserAgent = None
   \<and> getUrlStats demoEnv 2 ''abc'' (snd (trackClick 1 ''abc'' noUserAgent demoCreated))
       = Inl TypeError"
  using getUrlStats_absent_userAgent [of demoCreated "''abc''" demoUrl demoEnv 2 noUserAgent 1]
  by (simp add: demoCreated_eq noUserAgent_def)

subsection \<open>Reachable states are coherent\<close>

lemma coherentD: "coherent s \<Longrightarrow> coherentAt code (store s code) (cache s code)"
  by (simp add: coherent_def)

lemma preSave_fields [simp]:
  "clicks (preSave now u) = clicks u" "analytics (preSave now u) = analytics u"
  "expiresAt (preSave now u) = expiresAt u" "urlCode (preSave now u) = urlCode u"
  "userId (preSave now u) = userId u"
  by (simp_all add: preSave_def)

lemma newUrl_fields:
  "newUrl E now uid code l short qr x = Some u \<Longrightarrow>
   urlCode u = code \<and> clicks u = 0 \<and> analytics u = [] \<and> expiresAt u = x"
  by (auto simp: newUrl_def split: option.splits if_splits)

lemma saveNew_result:
  "saveNew now u s = Inr p \<Longrightarrow>
   p = (preSave now u, s\<lparr>store := (store s)(urlCode u \<mapsto> preSave now u)\<rparr>)
   \<and> store s (urlCode u) = None"
  by (auto simp: saveNew_def Let_def split: if_splits)

lemma createShortUrl_result:
  "(\<exists>e. createShortUrl E now gen l a x uid s = (Inl e, s)) \<or>
   (\<exists>u. createShortUrl E now gen l a x uid s =
          (Inr u, s\<lparr>store := (store s)(createdCode a gen \<mapsto> u),
                     cache := (cache s)(createdCode a gen \<mapsto> u)\<rparr>)
        \<and> store s (createdCode a gen) = None \<and> urlCode u = createdCode a gen
        \<and> clicks u = 0 \<and> analytics u = [] \<and> expiresAt u = x)"
proof (cases "toDataURL E (baseUrl E @ ''/'' @ createdCode a gen)")
  case None
  then show ?thesis by (simp add: createShortUrl_def createdCode_def Let_def)
next
  case (Some qr)
  show ?thesis
  proof (cases "newUrl E now uid (createdCode a gen) l (baseUrl E @ ''/'' @ createdCode a gen) qr x")
    case None
    then show ?thesis using Some by (simp add: createShortUrl_def createdCode_def Let_def)
  next
    case (Some u0)
    note u0 = newUrl_fields [OF Some]
    show ?thesis
    proof (cases "saveNew now u0 s")
      case (Inl e)
      then show ?thesis
        using \<open>toDataURL E (baseUrl E @ ''/'' @ createdCode a gen) = Some qr\<close> Some
        by (simp add: createShortUrl_def createdCode_def Let_def)
    next
      case (Inr p)
      from saveNew_result [OF Inr] u0
      have p: "p = (preSave now u0, s\<lparr>store := (store s)(createdCode a gen \<mapsto> preSave now u0)\<rparr>)"
        and free: "store s (createdCode a gen) = None"
        by simp_all
      show ?thesis
        using \<open>toDataURL E (baseUrl E @ ''/'' @ createdCode a gen) = Some qr\<close> Some Inr free u0
        unfolding p
        by (simp add: createShortUrl_def createdCode_def Let_def)
    qed
  qed
qed

lemma createShortUrl_state:
  "snd (createShortUrl E now gen l a x uid s) = s \<or>
   (\<exists>u. snd (createShortUrl E now gen l a x uid s) =
          s\<lparr>store := (store s)(createdCode a gen \<mapsto> u),
            cache := (cache s)(createdCode a gen \<mapsto> u)\<rparr>
        \<and> fst (createShortUrl E now gen l a x uid s) = Inr u
        \<and> store s (createdCode a gen) = None \<and> urlCode u = createdCode a gen
        \<and> clicks u = 0 \<and> analytics u = [] \<and> expiresAt u = x)"
  using createShortUrl_result [of E now gen l a x uid s] by auto

lemma coherent_createShortUrl:
  assumes "coherent s"
  shows "coherent (snd (createShortUrl E now gen l a x uid s))"
proof -
  consider (same) "snd (createShortUrl E now gen l a x uid s) = s"
    | (new) u where "snd (createShortUrl E now gen l a x uid s) =
          s\<lparr>store := (store s)(createdCode a gen \<mapsto> u),
            cache := (cache s)(createdCode a gen \<mapsto> u)\<rparr>"
        "urlCode u = createdCode a gen" "clicks u = 0" "analytics u = []"
    using createShortUrl_state [of E now gen l a x uid s] by blast
  then show ?thesis
  proof cases
    case same
    then show ?thesis using assms by simp
  next
    case new
    show ?thesis
      unfolding new(1) coherent_def
    proof
      fix code
      show "coherentAt code
              (store (s\<lparr>store := (store s)(createdCode a gen \<mapsto> u),
                        cache := (cache s)(createdCode a gen \<mapsto> u)\<rparr>) code)
              (cache (s\<lparr>store := (store s)(createdCode a gen \<mapsto> u),
                        cache := (cache s)(createdCode a gen \<mapsto> u)\<rparr>) code)"
      proof (cases "code = createdCode a gen")
        case True
        have "coherentAt (createdCode a gen) (Some u) (Some u)"
          unfolding coherentAt_def using new(2-4) by simp
        then show ?thesis using True by simp
      next
        case False
        then show ?thesis using coherentD [OF assms, of code] by simp
      qed
    qed
  qed
qed

lemma coherent_trackClick:
  assumes "coherent s"
  shows "coherent (snd (trackClick now code r s))"
  unfolding coherent_def
proof
  fix c
  show "coherentAt c (store (snd (trackClick now code r s)) c)
          (cache (snd (trackClick now code r s)) c)"
    using coherentD [OF assms, of c] 
    unfolding trackClick_def findOneAndUpdate_def cacheRefresh_def Let_def
    by (cases "store s code"; cases "cache s c"; cases "c = code") (simp_all add: coherentAt_def)
qed

lemma coherent_deleteUrl:
  assumes "coherent s"
  shows "coherent (snd (deleteUrl code uid s))"
  unfolding coherent_def
proof
  fix c
  show "coherentAt c (store (snd (deleteUrl code uid s)) c) (cache (snd (deleteUrl code uid s)) c)"
    using coherentD [OF assms, of c]
    unfolding deleteUrl_def
    by (cases "store s code"; cases "cache s c"; cases "c = code")
       (simp_all add: coherentAt_def split: option.splits)
qed

lemma preSave_flagged: "preSave now (u\<lparr>isExpired := True\<rparr>) = u\<lparr>isExpired := True\<rparr>"
  by (simp add: preSave_def)

lemma cacheGet_hit:
  "cache s code = Some v \<Longrightarrow> fresh now v \<Longrightarrow> cacheGet now code s = (Some v, s)"
  by (simp add: cacheGet_def fresh_def)

lemma cacheGet_miss:
  "\<not> (\<exists>v. cache s code = Some v \<and> fresh now v) \<Longrightarrow>
   cacheGet now code s = (None, s\<lparr>cache := (cache s)(code := None)\<rparr>)"
  by (cases "cache s code") (auto simp: cacheGet_def fresh_def fun_upd_idem)

lemma getUrl_hit:
  "cache s code = Some v \<Longrightarrow> fresh now v \<Longrightarrow> getUrl now code s = (Inr v, s)"
  by (simp add: getUrl_def cacheGet_hit)

lemma getUrl_miss:
  "\<not> (\<exists>v. cache s code = Some v \<and> fresh now v) \<Longrightarrow>
   getUrl now code s = storeLookup now code (s\<lparr>cache := (cache s)(code := None)\<rparr>)"
  by (simp add: getUrl_def cacheGet_miss)

lemma getUrl_cases:
  "(\<exists>v. cache s code = Some v \<and> fresh now v \<and> getUrl now code s = (Inr v, s))
   \<or> (\<not> (\<exists>v. cache s code = Some v \<and> fresh now v) \<and>
       ((store s code = None \<and>
           getUrl now code s = (Inl NotFound, s\<lparr>cache := (cache s)(code := None)\<rparr>))
        \<or> (\<exists>u. store s code = Some u \<and> (isExpired u \<or> pastDeadline now u) \<and>
              getUrl now code s =
                (Inl Expired, s\<lparr>store := (store s)(urlCode u \<mapsto> u\<lparr>isExpired := True\<rparr>),
                                cache := (cache s)(code := None)\<rparr>))
        \<or> (\<exists>u. store s code = Some u \<and> \<not> isExpired u \<and> \<not> pastDeadline now u \<and>
              getUrl now code s = (Inr u, s\<lparr>cache := (cache s)(code \<mapsto> u)\<rparr>))))"
proof (cases "\<exists>v. cache s code = Some v \<and> fresh now v")
  case True
  then show ?thesis using getUrl_hit by blast
next
  case False
  show ?thesis
  proof (cases "store s code")
    case None
    then show ?thesis using False
      by (simp add: getUrl_miss storeLookup_def)
  next
    case (Some u)
    then show ?thesis using False
      by (simp add: getUrl_miss storeLookup_def saveExisting_def preSave_flagged)
  qed
qed

lemma coherent_getUrl:
  assumes "coherent s"
  shows "coherent (snd (getUrl now code s))"
proof -
  have key: "\<And>u. store s code = Some u \<Longrightarrow> urlCode u = code"
    using coherentD [OF assms, of code] by (simp add: coherentAt_def split: option.splits)
  consider (same) "snd (getUrl now code s) = s"
    | (evict) "snd (getUrl now code s) = s\<lparr>cache := (cache s)(code := None)\<rparr>"
    | (flag) u where "store s code = Some u"
        "snd (getUrl now code s) = s\<lparr>store := (store s)(code \<mapsto> u\<lparr>isExpired := True\<rparr>),
                                      cache := (cache s)(code := None)\<rparr>"
    | (fill) u where "store s code = Some u"
        "snd (getUrl now code s) = s\<lparr>cache := (cache s)(code \<mapsto> u)\<rparr>"
    using getUrl_cases [of s code now] key by fastforce
  then show ?thesis
  proof cases
    case same
    then show ?thesis using assms by simp
  next
    case evict
    show ?thesis unfolding evict coherent_def
    proof
      fix c
      show "coherentAt c (store (s\<lparr>cache := (cache s)(code := None)\<rparr>) c)
              (cache (s\<lparr>cache := (cache s)(code := None)\<rparr>) c)"
        using coherentD [OF assms, of c]
        by (cases "c = code") (simp_all add: coherentAt_def split: option.splits)
    qed
  next
    case flag
    show ?thesis unfolding flag(2) coherent_def
    proof
      fix c
      show "coherentAt c
              (store (s\<lparr>store := (store s)(code \<mapsto> u\<lparr>isExpired := True\<rparr>),
                        cache := (cache s)(code := None)\<rparr>) c)
              (cache (s\<lparr>store := (store s)(code \<mapsto> u\<lparr>isExpired := True\<rparr>),
                        cache := (cache s)(code := None)\<rparr>) c)"
        using coherentD [OF assms, of c] flag(1)
        by (cases "c = code") (simp_all add: coherentAt_def split: option.splits)
    qed
  next
    case fill
    show ?thesis unfolding fill(2) coherent_def
    proof
      fix c
      show "coherentAt c (store (s\<lparr>cache := (cache s)(code \<mapsto> u)\<rparr>) c)
              (cache (s\<lparr>cache := (cache s)(code \<mapsto> u)\<rparr>) c)"
        using coherentD [OF assms, of c] fill(1)
        by (cases "c = code") (simp_all add: coherentAt_def split: option.splits)
    qed
  qed
qed

lemma coherent_bulkLoop: "coherent s \<Longrightarrow> coherent (snd (bulkLoop E now gens i items uid rs s))"
proof (induction items arbitrary: i rs s)
  case Nil
  then show ?case by simp
next
  case (Cons item items)
  have "coherent (snd (createShortUrl E now (gens i) (itemLongUrl item) (itemCustomAlias item)
                  (itemExpiresAt item) uid s))"
    using Cons.prems by (rule coherent_createShortUrl)
  then show ?case
    using Cons.IH by (auto split: prod.splits sum.splits)
qed

lemma coherent_exec: "coherent s \<Longrightarrow> coherent (exec E now x s)"
  by (cases x)
    (simp_all add: coherent_createShortUrl coherent_getUrl coherent_trackClick coherent_deleteUrl
      coherent_bulkLoop createBulkUrls_def)

lemma coherent_init: "coherent init"
  by (simp add: coherent_def coherentAt_def init_def)

lemma reachable_coherent: "reachable E s \<Longrightarrow> coherent s"
  by (induction rule: reachable.induct) (simp_all add: coherent_init coherent_exec)

subsection \<open>Bulk creation\<close>

lemma bulkLoop_Cons:
  "bulkLoop E now gens i (item # items) uid rs s =
     bulkLoop E now gens (Suc i) items uid (rs @ [bulkStep E now (gens i) item uid s])
       (snd (createShortUrl E now (gens i) (itemLongUrl item) (itemCustomAlias item)
                  (itemExpiresAt item) uid s))"
  by (simp add: bulkStep_def split: prod.splits sum.splits)

lemma bulkLoop_acc:
  "bulkLoop E now gens i items uid rs s =
     (rs @ fst (bulkLoop E now gens i items uid [] s), snd (bulkLoop E now gens i items uid [] s))"
proof (induction items arbitrary: i rs s)
  case Nil
  then show ?case by simp
next
  case (Cons item items)
  show ?case
    unfolding bulkLoop_Cons
    by (subst Cons.IH, subst (2 3) Cons.IH) simp
qed

lemma bulkLoop_append:
  "bulkLoop E now gens i (xs @ ys) uid rs s =
     bulkLoop E now gens (i + length xs) ys uid (fst (bulkLoop E now gens i xs uid rs s))
       (snd (bulkLoop E now gens i xs uid rs s))"
proof (induction xs arbitrary: i rs s)
  case Nil
  then show ?case by simp
next
  case (Cons x xs)
  show ?case
    unfolding append_Cons bulkLoop_Cons by (simp add: Cons.IH)
qed

lemma bulkLoop_length:
  "length (fst (bulkLoop E now gens i items uid rs s)) = length rs + length items"
proof (induction items arbitrary: i rs s)
  case Nil
  then show ?case by simp
next
  case (Cons item items)
  show ?case unfolding bulkLoop_Cons by (simp add: Cons.IH)
qed

lemma originalUrl_bulkStep: "originalUrl (bulkStep E now gen item uid s) = itemLongUrl item"
  by (simp add: bulkStep_def split: sum.splits)

lemma bulkLoop_originalUrl:
  "map originalUrl (fst (bulkLoop E now gens i items uid rs s)) =
     map originalUrl rs @ map itemLongUrl items"
proof (induction items arbitrary: i rs s)
  case Nil
  then show ?case by simp
next
  case (Cons item items)
  show ?case unfolding bulkLoop_Cons by (simp add: Cons.IH originalUrl_bulkStep)
qed

lemma bulkLoop_nth:
  assumes "i < length items"
  shows "fst (bulkLoop E now gens 0 items uid [] s) ! i =
           bulkStep E now (gens i) (items ! i) uid
             (snd (bulkLoop E now gens 0 (take i items) uid [] s))"
proof -
  let ?pre = "bulkLoop E now gens 0 (take i items) uid [] s"
  let ?next = "snd (createShortUrl E now (gens i) (itemLongUrl (items ! i))
                 (itemCustomAlias (items ! i)) (itemExpiresAt (items ! i)) uid (snd ?pre))"
  have split: "items = take i items @ (items ! i # drop (Suc i) items)"
    using assms by (simp add: id_take_nth_drop)
  have len: "length (fst ?pre) = i"
    using assms by (simp add: bulkLoop_length)
  have "bulkLoop E now gens 0 items uid [] s =
          bulkLoop E now gens i (items ! i # drop (Suc i) items) uid (fst ?pre) (snd ?pre)"
    using assms by (subst split, subst bulkLoop_append) simp
  also have "\<dots> = bulkLoop E now gens (Suc i) (drop (Suc i) items) uid
                    (fst ?pre @ [bulkStep E now (gens i) (items ! i) uid (snd ?pre)]) ?next"
    by (rule bulkLoop_Cons)
  finally have "fst (bulkLoop E now gens 0 items uid [] s) =
      (fst ?pre @ [bulkStep E now (gens i) (items ! i) uid (snd ?pre)]) @
        fst (bulkLoop E now gens (Suc i) (drop (Suc i) items) uid [] ?next)"
    by (simp add: bulkLoop_acc [where rs = "_ @ _"])
  then show ?thesis using len by (simp add: nth_append)
qed

text \<open>
  C9: createBulkUrls returns one outcome per input item, in the order of the input. The
  outcome of item \<open>i\<close> carries the item's longUrl as originalUrl and is what
  createShortUrl returns for that item in the state the items before it left: a
  creation that fails is recorded as \<open>Failed\<close> (success false) with its error and the
  loop goes on, so no failure ends the batch or fails the call as a whole.
\<close>

theorem createBulkUrls_outcomes:
  "length (fst (createBulkUrls E now gens urls uid s)) = length urls
   \<and> map originalUrl (fst (createBulkUrls E now gens urls uid s)) = map itemLongUrl urls
   \<and> (\<forall>i < length urls.
        fst (createBulkUrls E now gens urls uid s) ! i =
          (case fst (createShortUrl E now (gens i) (itemLongUrl (urls ! i))
                       (itemCustomAlias (urls ! i)) (itemExpiresAt (urls ! i)) uid
                       (snd (createBulkUrls E now gens (take i urls) uid s))) of
             Inr u \<Rightarrow> Created (itemLongUrl (urls ! i)) (shortUrl u)
           | Inl e \<Rightarrow> Failed (itemLongUrl (urls ! i)) e)
        \<and> success (fst (createBulkUrls E now gens urls uid s) ! i) =
            (\<exists>u. fst (createShortUrl E now (gens i) (itemLongUrl (urls ! i))
                       (itemCustomAlias (urls ! i)) (itemExpiresAt (urls ! i)) uid
                       (snd (createBulkUrls E now gens (take i urls) uid s))) = Inr u))"
  unfolding createBulkUrls_def
  using bulkLoop_nth [of _ urls E now gens uid s]
  by (simp add: bulkLoop_length bulkLoop_originalUrl bulkStep_def success_def split: sum.splits)

theorem createBulkUrls_outcomes_witness:
  "(1 :: nat) < length demoItems
   \<and> fst (createBulkUrls demoEnv 0 (\<lambda>i. ''Ab3dE6gH'') demoItems userA init) ! 0
       = Failed ''https://a.example'' InvalidAliasFormat
   \<and> fst (createBulkUrls demoEnv 0 (\<lambda>i. ''Ab3dE6gH'') demoItems userA init) ! 1
       = Created ''https://b.example'' ''http://sho.rt/Ab3dE6gH''
   \<and> length (fst (createBulkUrls demoEnv 0 (\<lambda>i. ''Ab3dE6gH'') demoItems userA init)) = 2"
proof -
  have one: "(1 :: nat) < length demoItems" and zero: "(0 :: nat) < length demoItems"
    by (simp_all add: demoItems_def)
  have first: "createShortUrl demoEnv 0 ''Ab3dE6gH'' ''https://a.example'' (Some ''not ok!'') None userA init
      = (Inl InvalidAliasFormat, init)"
    by (simp add: createShortUrl_def truthy_def aliasFormat_def aliasChars_def)
  have second: "fst (createShortUrl demoEnv 0 ''Ab3dE6gH'' ''https://b.example'' None None userA init)
      = Inr \<lparr>userId = userA, urlCode = ''Ab3dE6gH'', longUrl = ''https://b.example'',
         shortUrl = ''http://sho.rt/Ab3dE6gH'', qrCode = ''data:http://sho.rt/Ab3dE6gH'', clicks = 0,
         analytics = [], createdAt = 0, expiresAt = None, isExpired = False\<rparr>"
    by (simp add: createShortUrl_def truthy_def saveNew_def newUrl_def validDate_def demoCast_def lowerHex_def preSave_def pastDeadline_def
        init_def demoEnv_def Let_def)
  have pre: "snd (createBulkUrls demoEnv 0 (\<lambda>i. ''Ab3dE6gH'') [demoItems ! 0] userA init) = init"
    by (simp add: createBulkUrls_def demoItems_def first)
  have take1: "take 1 demoItems = [demoItems ! 0]" by (simp add: demoItems_def)
  note inst = createBulkUrls_outcomes [of demoEnv 0 "\<lambda>i. ''Ab3dE6gH''" demoItems "userA" init]
  from inst have len: "length (fst (createBulkUrls demoEnv 0 (\<lambda>i. ''Ab3dE6gH'') demoItems userA init)) = 2"
    by (simp add: demoItems_def)
  from inst zero have r0: "fst (createBulkUrls demoEnv 0 (\<lambda>i. ''Ab3dE6gH'') demoItems userA init) ! 0
       = Failed ''https://a.example'' InvalidAliasFormat"
    by (simp add: createBulkUrls_def first demoItems_def)
  from inst one have "fst (createBulkUrls demoEnv 0 (\<lambda>i. ''Ab3dE6gH'') demoItems userA init) ! 1 =
          (case fst (createShortUrl demoEnv 0 ''Ab3dE6gH'' (itemLongUrl (demoItems ! 1))
                       (itemCustomAlias (demoItems ! 1)) (itemExpiresAt (demoItems ! 1)) userA
                       (snd (createBulkUrls demoEnv 0 (\<lambda>i. ''Ab3dE6gH'') (take 1 demoItems) userA init))) of
             Inr u \<Rightarrow> Created (itemLongUrl (demoItems ! 1)) (shortUrl u)
           | Inl e \<Rightarrow> Failed (itemLongUrl (demoItems ! 1)) e)"
    by blast
  then have r1: "fst (createBulkUrls demoEnv 0 (\<lambda>i. ''Ab3dE6gH'') demoItems userA init) ! 1
       = Created ''https://b.example'' ''http://sho.rt/Ab3dE6gH''"
    unfolding take1 pre by (simp add: demoItems_def second)
  show ?thesis using one r0 r1 len by simp
qed

subsection \<open>Custom aliases\<close>

text \<open>
  C5, as amended: for every create with a non-empty customAlias \<open>a\<close>: if \<open>a\<close> does not
  match \<^verbatim>\<open>[A-Za-z0-9_-]+\<close> the call fails with InvalidAliasFormat and the state is
  unchanged; if it matches and a document with that code is stored, the call fails with
  AliasAlreadyInUse and the state is unchanged; otherwise the document the call creates
  has the alias as its urlCode and is stored under it, and every later create with the
  same alias fails with AliasAlreadyInUse. (An empty alias counts as no alias.)
\<close>

theorem createShortUrl_customAlias:
  assumes "a \<noteq> []"
  shows "(\<not> aliasFormat a \<longrightarrow>
            createShortUrl E now gen l (Some a) x uid s = (Inl InvalidAliasFormat, s))
       \<and> (aliasFormat a \<and> store s a \<noteq> None \<longrightarrow>
            createShortUrl E now gen l (Some a) x uid s = (Inl AliasAlreadyInUse, s))
       \<and> (aliasFormat a \<and> store s a = None \<longrightarrow>
            (\<forall>u s'. createShortUrl E now gen l (Some a) x uid s = (Inr u, s') \<longrightarrow>
               urlCode u = a \<and> store s' a = Some u \<and>
               (\<forall>E' now' gen' l' x' uid'.
                  createShortUrl E' now' gen' l' (Some a) x' uid' s' = (Inl AliasAlreadyInUse, s'))))"
proof (intro conjI impI allI)
  assume "\<not> aliasFormat a"
  then show "createShortUrl E now gen l (Some a) x uid s = (Inl InvalidAliasFormat, s)"
    using assms by (simp add: createShortUrl_def truthy_def)
next
  assume "aliasFormat a \<and> store s a \<noteq> None"
  then show "createShortUrl E now gen l (Some a) x uid s = (Inl AliasAlreadyInUse, s)"
    using assms by (auto simp add: createShortUrl_def truthy_def)
next
  fix u s'
  assume ok: "aliasFormat a \<and> store s a = None"
    and res: "createShortUrl E now gen l (Some a) x uid s = (Inr u, s')"
  have code: "createdCode (Some a) gen = a"
    using assms by (simp add: createdCode_def truthy_def)
  from createShortUrl_result [of E now gen l "Some a" x uid s] res
  have s': "s' = s\<lparr>store := (store s)(a \<mapsto> u), cache := (cache s)(a \<mapsto> u)\<rparr>"
    and u: "urlCode u = a"
    unfolding code by auto
  show "urlCode u = a" by (rule u)
  show "store s' a = Some u" by (simp add: s')
  fix E' now' gen' l' x' uid'
  show "createShortUrl E' now' gen' l' (Some a) x' uid' s' = (Inl AliasAlreadyInUse, s')"
    using assms ok by (simp add: createShortUrl_def truthy_def s')
qed

theorem createShortUrl_customAlias_witness:
  "''abc'' \<noteq> [] \<and> aliasFormat ''abc'' \<and> store init ''abc'' = None
   \<and> fst (createShortUrl demoEnv 0 ''Ab3dE6gH'' ''https://example.com'' (Some ''abc'') (Some 100)
            userA init) = Inr demoUrl
   \<and> urlCode demoUrl = ''abc'' \<and> store demoCreated ''abc'' = Some demoUrl
   \<and> createShortUrl demoEnv 5 ''Zz9yX8wV'' ''https://other.example'' (Some ''abc'') None userB
        demoCreated = (Inl AliasAlreadyInUse, demoCreated)
   \<and> \<not> aliasFormat ''a b''
   \<and> createShortUrl demoEnv 5 ''Zz9yX8wV'' ''https://other.example'' (Some ''a b'') None userB
        demoCreated = (Inl InvalidAliasFormat, demoCreated)"
proof -
  have fmt: "aliasFormat ''abc''" "\<not> aliasFormat ''a b''"
    by (simp_all add: aliasFormat_def aliasChars_def)
  have res: "createShortUrl demoEnv 0 ''Ab3dE6gH'' ''https://example.com'' (Some ''abc'') (Some 100)
            userA init = (Inr demoUrl, demoCreated)"
    unfolding demoCreated_eq
    by (simp add: createShortUrl_def truthy_def fmt saveNew_def newUrl_def validDate_def demoCast_def lowerHex_def preSave_def pastDeadline_def
        init_def demoEnv_def demoUrl_def Let_def)
  have free: "store init ''abc'' = None" by (simp add: init_def)
  note inst1 = createShortUrl_customAlias [of "''abc''" demoEnv 0 "''Ab3dE6gH''"
      "''https://example.com''" "Some 100" "userA" init]
  note inst2 = createShortUrl_customAlias [of "''a b''" demoEnv 5 "''Zz9yX8wV''"
      "''https://other.example''" None "userB" demoCreated]
  from inst1 fmt free res
  have "urlCode demoUrl = ''abc'' \<and> store demoCreated ''abc'' = Some demoUrl
     \<and> createShortUrl demoEnv 5 ''Zz9yX8wV'' ''https://other.example'' (Some ''abc'') None userB
        demoCreated = (Inl AliasAlreadyInUse, demoCreated)"
    by simp
  moreover from inst2 fmt
  have "createShortUrl demoEnv 5 ''Zz9yX8wV'' ''https://other.example'' (Some ''a b'') None userB
        demoCreated = (Inl InvalidAliasFormat, demoCreated)"
    by simp
  ultimately show ?thesis using fmt free res by simp
qed

text \<open>
  The claim as stated fails for the empty alias: it does not match the character class,
  and the call does not fail. It creates a document under the generated code.
\<close>

theorem createShortUrl_empty_alias:
  "\<not> aliasFormat '''' \<and>
   map_sum id urlCode
     (fst (createShortUrl demoEnv 0 ''Ab3dE6gH'' ''https://example.com'' (Some '''') None userA init))
     = Inr ''Ab3dE6gH''"
  by (simp add: aliasFormat_def createShortUrl_def truthy_def saveNew_def newUrl_def validDate_def demoCast_def lowerHex_def preSave_def
      pastDeadline_def init_def demoEnv_def Let_def)

subsection \<open>Deletion\<close>

lemma deleteUrl_result:
  "(store s code = None \<longrightarrow> deleteUrl code rid s = (Inl NotFound, s))
   \<and> (\<forall>u. store s code = Some u \<and> userId u \<noteq> rid \<longrightarrow>
         deleteUrl code rid s = (Inl NotAuthorized, s))
   \<and> (\<forall>u. store s code = Some u \<and> userId u = rid \<longrightarrow>
         deleteUrl code rid s = (Inr u, s\<lparr>store := (store s)(code := None)\<rparr>))"
  by (simp add: deleteUrl_def)

text \<open>
  C1: deleteUrl fails with NotFound or NotAuthorized as claimed and otherwise removes the
  document from the store (lemma \<open>deleteUrl_result\<close>), but it leaves the cache as it
  is. After the owner has deleted the code abc, which createShortUrl had put into the
  cache, getUrl still returns the deleted document instead of failing with NotFound.
\<close>

theorem deleteUrl_keeps_cache_entry:
  "deleteUrl ''abc'' userA demoCreated
     = (Inr demoUrl, \<lparr>store = Map.empty, cache = [''abc'' \<mapsto> demoUrl]\<rparr>)
   \<and> getUrl 50 ''abc'' (snd (deleteUrl ''abc'' userA demoCreated))
     = (Inr demoUrl, \<lparr>store = Map.empty, cache = [''abc'' \<mapsto> demoUrl]\<rparr>)"
  by (simp add: demoCreated_eq deleteUrl_def getUrl_def cacheGet_def demoUrl_def)

subsection \<open>Click counts and click logs\<close>

lemma coherent_key: "coherent s \<Longrightarrow> store s code = Some u \<Longrightarrow> urlCode u = code"
  using coherentD [of s code] by (simp add: coherentAt_def)

lemma coherent_counts:
  "coherent s \<Longrightarrow> store s code = Some u \<or> cache s code = Some u \<Longrightarrow>
   clicks u = length (analytics u)"
  using coherentD [of s code] by (auto simp: coherentAt_def split: option.splits)

lemma createShortUrl_keeps_stored:
  "store s code = Some u \<Longrightarrow> store (snd (createShortUrl E now gen l a x uid s)) code = Some u"
  using createShortUrl_state [of E now gen l a x uid s] by auto

lemma bulkLoop_keeps_stored:
  "store s code = Some u \<Longrightarrow> store (snd (bulkLoop E now gens i items uid rs s)) code = Some u"
proof (induction items arbitrary: i rs s)
  case Nil
  then show ?case by simp
next
  case (Cons item items)
  show ?case
    unfolding bulkLoop_Cons
    by (rule Cons.IH) (rule createShortUrl_keeps_stored [OF Cons.prems])
qed

lemma getUrl_stored:
  assumes "coherent s" "store s c = Some u"
  shows "store (snd (getUrl now code s)) c = Some u \<or>
         store (snd (getUrl now code s)) c = Some (u\<lparr>isExpired := True\<rparr>)"
proof -
  have key: "\<And>v. store s code = Some v \<Longrightarrow> urlCode v = code"
    using assms(1) by (rule coherent_key)
  show ?thesis
    using getUrl_cases [of s code now] assms(2) key
    by (cases "c = code") auto
qed

lemma trackClick_stored:
  "store s code = Some u \<Longrightarrow>
   trackClick now code r s =
     (Some (u\<lparr>clicks := clicks u + 1, analytics := analytics u @ [clickOf now r]\<rparr>),
      s\<lparr>store := (store s)(code \<mapsto>
                 u\<lparr>clicks := clicks u + 1, analytics := analytics u @ [clickOf now r]\<rparr>),
        cache := (cache s)(code \<mapsto>
                 u\<lparr>clicks := clicks u + 1, analytics := analytics u @ [clickOf now r]\<rparr>)\<rparr>)"
  by (simp add: trackClick_def findOneAndUpdate_def cacheRefresh_def Let_def)

lemma trackClick_missing: "store s code = None \<Longrightarrow> trackClick now code r s = (None, s)"
  by (simp add: trackClick_def findOneAndUpdate_def cacheRefresh_def)

lemma trackClick_other:
  "c \<noteq> code \<Longrightarrow> store (snd (trackClick now code r s)) c = store s c"
  by (cases "store s code") (simp_all add: trackClick_stored trackClick_missing)

lemma exec_keeps_log:
  assumes "coherent s" "store s code = Some u" "store (exec E now x s) code = Some u'"
    "\<not> (\<exists>r. x = TrackClick code r)"
  shows "clicks u' = clicks u \<and> analytics u' = analytics u"
proof (cases x)
  case (CreateShortUrl gen l a e uid)
  then show ?thesis
    using assms(2,3) createShortUrl_keeps_stored [of s code u E now gen l a e uid] by simp
next
  case (GetUrl c)
  then show ?thesis
    using assms(2,3) getUrl_stored [OF assms(1,2), of now c] by auto
next
  case (TrackClick c r)
  then have "c \<noteq> code" using assms(4) by simp
  then show ?thesis using assms(2,3) TrackClick trackClick_other [of code c now r s] by simp
next
  case (GetUrlStats c)
  then show ?thesis using assms(2,3) by simp
next
  case (CreateBulkUrls gens urls uid)
  then show ?thesis
    using assms(2,3) bulkLoop_keeps_stored [of s code u E now gens 0 urls uid "[]"]
    by (simp add: createBulkUrls_def)
next
  case (GetAllUrls uid)
  then show ?thesis using assms(2,3) by simp
next
  case (DeleteUrl c uid)
  then show ?thesis
    using assms(2,3) by (auto simp: deleteUrl_def split: option.splits if_splits)
qed

text \<open>
  C2: in every state the service reaches, a stored document (and a cached one) counts as
  many clicks as its click log is long. createShortUrl creates a document with clicks 0
  and an empty log; trackClick, in its one update of the store, adds 1 to clicks and
  appends one event to the log; no other request, and no trackClick for another code,
  changes the clicks or the log of a document that stays in the store.
\<close>

theorem clicks_eq_length_analytics:
  assumes "reachable E s"
  shows "(\<forall>code u. store s code = Some u \<or> cache s code = Some u \<longrightarrow>
            clicks u = length (analytics u))
       \<and> (\<forall>now gen l a x uid u s'. createShortUrl E now gen l a x uid s = (Inr u, s') \<longrightarrow>
            clicks u = 0 \<and> analytics u = [])
       \<and> (\<forall>now code r u. store s code = Some u \<longrightarrow>
            store (snd (findOneAndUpdate now code r s)) code =
              Some (u\<lparr>clicks := clicks u + 1, analytics := analytics u @ [clickOf now r]\<rparr>)
            \<and> store (snd (trackClick now code r s)) code =
              Some (u\<lparr>clicks := clicks u + 1, analytics := analytics u @ [clickOf now r]\<rparr>))
       \<and> (\<forall>now x code u u'.
            \<not> (\<exists>r. x = TrackClick code r) \<and> store s code = Some u \<and>
            store (exec E now x s) code = Some u' \<longrightarrow>
            clicks u' = clicks u \<and> analytics u' = analytics u)"
proof -
  have coh: "coherent s" using assms by (rule reachable_coherent)
  have p1: "\<forall>code u. store s code = Some u \<or> cache s code = Some u \<longrightarrow>
            clicks u = length (analytics u)"
    using coherent_counts [OF coh] by blast
  have p2: "\<forall>now gen l a x uid u s'. createShortUrl E now gen l a x uid s = (Inr u, s') \<longrightarrow>
            clicks u = 0 \<and> analytics u = []"
  proof (intro allI impI)
    fix now gen l a x uid u s'
    assume "createShortUrl E now gen l a x uid s = (Inr u, s')"
    then show "clicks u = 0 \<and> analytics u = []"
      using createShortUrl_result [of E now gen l a x uid s] by auto
  qed
  have p3: "\<forall>now code r u. store s code = Some u \<longrightarrow>
            store (snd (findOneAndUpdate now code r s)) code =
              Some (u\<lparr>clicks := clicks u + 1, analytics := analytics u @ [clickOf now r]\<rparr>)
            \<and> store (snd (trackClick now code r s)) code =
              Some (u\<lparr>clicks := clicks u + 1, analytics := analytics u @ [clickOf now r]\<rparr>)"
    by (simp add: trackClick_stored findOneAndUpdate_def Let_def)
  have p4: "\<forall>now x code u u'.
            \<not> (\<exists>r. x = TrackClick code r) \<and> store s code = Some u \<and>
            store (exec E now x s) code = Some u' \<longrightarrow>
            clicks u' = clicks u \<and> analytics u' = analytics u"
    using exec_keeps_log [OF coh] by blast
  show ?thesis using p1 p2 p3 p4 by blast
qed


lemma reachable_demoCreated: "reachable demoEnv demoCreated"
  using reachable_step [OF reachable_init, of demoEnv 0
      "CreateShortUrl ''Ab3dE6gH'' ''https://example.com'' (Some ''abc'') (Some 100) userA"]
  by (simp add: demoCreated_def)

theorem clicks_eq_length_analytics_witness:
  "reachable demoEnv demoCreated
   \<and> store demoCreated ''abc'' = Some demoUrl \<and> clicks demoUrl = length (analytics demoUrl)
   \<and> store (snd (trackClick 7 ''abc'' chromeRequest demoCreated)) ''abc''
       = Some (demoUrl\<lparr>clicks := 1, analytics := [clickOf 7 chromeRequest]\<rparr>)
   \<and> store (exec demoEnv 8 (GetUrl ''abc'') demoCreated) ''abc'' = Some demoUrl"
proof -
  note inst = clicks_eq_length_analytics [OF reachable_demoCreated]
  have st: "store demoCreated ''abc'' = Some demoUrl" by (simp add: demoCreated_eq)
  have get: "store (exec demoEnv 8 (GetUrl ''abc'') demoCreated) ''abc'' = Some demoUrl"
    by (simp add: demoCreated_eq getUrl_def cacheGet_def demoUrl_def)
  from inst st have "clicks demoUrl = length (analytics demoUrl)" by blast
  moreover from inst st
  have "store (snd (trackClick 7 ''abc'' chromeRequest demoCreated)) ''abc''
       = Some (demoUrl\<lparr>clicks := clicks demoUrl + 1,
                        analytics := analytics demoUrl @ [clickOf 7 chromeRequest]\<rparr>)"
    by blast
  ultimately show ?thesis using reachable_demoCreated st get by (simp add: demoUrl_def)
qed

subsection \<open>Expiration is final\<close>

lemma flaggedAt_getUrl: "flaggedAt code s \<Longrightarrow> fst (getUrl now code s) = Inl Expired"
  using getUrl_cases [of s code now]
  by (auto simp: flaggedAt_def fresh_def split: option.splits)

lemma flaggedAt_same:
  assumes "flaggedAt code s" "coherent s'" "store s' code = store s code"
    "cache s' code = cache s code"
  shows "flaggedAt code s'"
  using assms by (simp add: flaggedAt_def)

lemma flaggedAt_createShortUrl:
  assumes "flaggedAt code s"
  shows "flaggedAt code (snd (createShortUrl E now gen l a x uid s))"
proof (rule flaggedAt_same [OF assms])
  show "coherent (snd (createShortUrl E now gen l a x uid s))"
    using assms by (simp add: flaggedAt_def coherent_createShortUrl)
  have "store s code \<noteq> None" using assms by (auto simp: flaggedAt_def)
  then show "store (snd (createShortUrl E now gen l a x uid s)) code = store s code"
    "cache (snd (createShortUrl E now gen l a x uid s)) code = cache s code"
    using createShortUrl_state [of E now gen l a x uid s] by auto
qed

lemma flaggedAt_bulkLoop:
  "flaggedAt code s \<Longrightarrow> flaggedAt code (snd (bulkLoop E now gens i items uid rs s))"
proof (induction items arbitrary: i rs s)
  case Nil
  then show ?case by simp
next
  case (Cons item items)
  show ?case
    unfolding bulkLoop_Cons
    by (rule Cons.IH) (rule flaggedAt_createShortUrl [OF Cons.prems])
qed

lemma flaggedAt_getUrl_state:
  assumes "flaggedAt code s"
  shows "flaggedAt code (snd (getUrl now c s))"
proof -
  have coh: "coherent s" using assms by (simp add: flaggedAt_def)
  have coh': "coherent (snd (getUrl now c s))" using coh by (rule coherent_getUrl)
  have key: "\<And>v. store s c = Some v \<Longrightarrow> urlCode v = c"
    using coh by (rule coherent_key)
  show ?thesis
  proof (cases "c = code")
    case False
    have "store (snd (getUrl now c s)) code = store s code"
      "cache (snd (getUrl now c s)) code = cache s code"
      using getUrl_cases [of s c now] key False by auto
    then show ?thesis using assms coh' by (simp add: flaggedAt_def)
  next
    case True
    obtain u where u: "store s code = Some u" "isExpired u"
      using assms by (auto simp: flaggedAt_def)
    have nohit: "\<not> (\<exists>v. cache s code = Some v \<and> fresh now v)"
      using assms by (auto simp: flaggedAt_def fresh_def)
    have "snd (getUrl now code s) =
            s\<lparr>store := (store s)(code \<mapsto> u\<lparr>isExpired := True\<rparr>),
              cache := (cache s)(code := None)\<rparr>"
      using getUrl_cases [of s code now] nohit u key [unfolded True] by auto
    then show ?thesis using coh' unfolding True by (simp add: flaggedAt_def)
  qed
qed

lemma flaggedAt_trackClick:
  assumes "flaggedAt code s"
  shows "flaggedAt code (snd (trackClick now c r s))"
proof -
  have coh': "coherent (snd (trackClick now c r s))"
    using assms by (simp add: flaggedAt_def coherent_trackClick)
  show ?thesis
  proof (cases "store s c")
    case None
    then show ?thesis using assms by (simp add: trackClick_missing)
  next
    case (Some v)
    show ?thesis
      using assms coh' unfolding trackClick_stored [OF Some]
      by (cases "c = code") (use Some in \<open>auto simp: flaggedAt_def\<close>)
  qed
qed

lemma flaggedAt_deleteUrl:
  assumes "flaggedAt code s" "c \<noteq> code"
  shows "flaggedAt code (snd (deleteUrl c uid s))"
proof (rule flaggedAt_same [OF assms(1)])
  show "coherent (snd (deleteUrl c uid s))"
    using assms by (simp add: flaggedAt_def coherent_deleteUrl)
  show "store (snd (deleteUrl c uid s)) code = store s code"
    "cache (snd (deleteUrl c uid s)) code = cache s code"
    using assms(2) by (auto simp: deleteUrl_def split: option.splits)
qed

lemma flaggedAt_exec:
  "flaggedAt code s \<Longrightarrow> \<not> deletes code x \<Longrightarrow> flaggedAt code (exec E now x s)"
  by (cases x)
    (simp_all add: flaggedAt_createShortUrl flaggedAt_getUrl_state flaggedAt_trackClick
      flaggedAt_deleteUrl flaggedAt_bulkLoop createBulkUrls_def)

lemma flaggedAt_run:
  "flaggedAt code s \<Longrightarrow> list_all (\<lambda>(now, x). \<not> deletes code x) trace \<Longrightarrow>
   flaggedAt code (run E trace s)"
proof (induction trace arbitrary: s)
  case Nil
  then show ?case by simp
next
  case (Cons p trace)
  obtain now x where p: "p = (now, x)" by (cases p)
  show ?case
    using Cons.prems unfolding p
    by (auto intro!: Cons.IH flaggedAt_exec)
qed

lemma getUrl_past_deadline:
  assumes "coherent s" "store s code = Some u" "expiresAt u = Some t" "t < now"
  shows "getUrl now code s =
           (Inl Expired, s\<lparr>store := (store s)(code \<mapsto> u\<lparr>isExpired := True\<rparr>),
                           cache := (cache s)(code := None)\<rparr>)"
proof -
  have nohit: "\<not> (\<exists>v. cache s code = Some v \<and> fresh now v)"
    using coherentD [OF assms(1), of code] assms(2-4)
    by (auto simp: coherentAt_def fresh_def)
  have past: "pastDeadline now u" using assms(3,4) by (simp add: pastDeadline_def)
  have key: "urlCode u = code" using assms(1,2) by (rule coherent_key)
  show ?thesis
    using getUrl_cases [of s code now] nohit past assms(2) key by auto
qed

text \<open>
  C3: in every state the service reaches, when a stored document's deadline has passed,
  getUrl fails with Expired and writes
  the document back with isExpired set, and the cache holds no entry for the code. From
  then on getUrl fails with Expired at every time and after every sequence of requests
  that does not delete the code.
\<close>

theorem expired_is_final:
  assumes "reachable E s" "store s code = Some u" "expiresAt u = Some t" "t < now"
  shows "fst (getUrl now code s) = Inl Expired
       \<and> store (snd (getUrl now code s)) code = Some (u\<lparr>isExpired := True\<rparr>)
       \<and> cache (snd (getUrl now code s)) code = None
       \<and> (\<forall>trace now'. list_all (\<lambda>(now, x). \<not> deletes code x) trace \<longrightarrow>
            fst (getUrl now' code (run E trace (snd (getUrl now code s)))) = Inl Expired)"
proof -
  have coh: "coherent s" using assms(1) by (rule reachable_coherent)
  note res = getUrl_past_deadline [OF coh assms(2-4)]
  have "flaggedAt code (snd (getUrl now code s))"
    using coherent_getUrl [OF coh, of now code] res by (simp add: flaggedAt_def)
  then have "\<forall>trace now'. list_all (\<lambda>(now, x). \<not> deletes code x) trace \<longrightarrow>
            fst (getUrl now' code (run E trace (snd (getUrl now code s)))) = Inl Expired"
    using flaggedAt_run flaggedAt_getUrl by blast
  then show ?thesis using res by simp
qed

theorem expired_is_final_witness:
  "reachable demoEnv demoCreated \<and> store demoCreated ''abc'' = Some demoUrl
   \<and> expiresAt demoUrl = Some 100 \<and> (100 :: int) < 101
   \<and> fst (getUrl 101 ''abc'' demoCreated) = Inl Expired
   \<and> store (snd (getUrl 101 ''abc'' demoCreated)) ''abc'' = Some (demoUrl\<lparr>isExpired := True\<rparr>)
   \<and> fst (getUrl 50 ''abc''
        (run demoEnv [(102, TrackClick ''abc'' chromeRequest), (103, GetUrl ''abc'')]
           (snd (getUrl 101 ''abc'' demoCreated)))) = Inl Expired"
proof -
  have st: "store demoCreated ''abc'' = Some demoUrl" by (simp add: demoCreated_eq)
  have ex: "expiresAt demoUrl = Some 100" by (simp add: demoUrl_def)
  have tr: "list_all (\<lambda>(now, x). \<not> deletes ''abc'' x)
              [(102 :: int, TrackClick ''abc'' chromeRequest), (103, GetUrl ''abc'')]"
    by simp
  have lt: "(100 :: int) < 101" by simp
  note inst = expired_is_final [OF reachable_demoCreated st ex lt]
  from inst tr
  have later: "fst (getUrl 50 ''abc''
        (run demoEnv [(102, TrackClick ''abc'' chromeRequest), (103, GetUrl ''abc'')]
           (snd (getUrl 101 ''abc'' demoCreated)))) = Inl Expired"
    by blast
  from inst have "fst (getUrl 101 ''abc'' demoCreated) = Inl Expired
     \<and> store (snd (getUrl 101 ''abc'' demoCreated)) ''abc'' = Some (demoUrl\<lparr>isExpired := True\<rparr>)"
    by simp
  then show ?thesis using reachable_demoCreated st ex lt later by simp
qed

subsection \<open>The cache refresh of trackClick\<close>

text \<open>
  C4, as amended: the refresh step of trackClick stores the document its store update
  returned as the cached document of the code, whatever the cache held. When the
  requests run one after the other, each refresh right after its own update, the
  refreshed document has strictly more clicks than the document cached before.
\<close>

theorem cacheRefresh_overwrites:
  "cache (cacheRefresh code (Some new) s) code = Some new
   \<and> (reachable E s \<longrightarrow>
        (\<forall>now r new s' old.
           trackClick now code r s = (Some new, s') \<and> cache s code = Some old \<longrightarrow>
           cache s' code = Some new \<and> clicks old < clicks new))"
proof (rule conjI)
  show "cache (cacheRefresh code (Some new) s) code = Some new"
    by (simp add: cacheRefresh_def)
next
  show "reachable E s \<longrightarrow>
        (\<forall>now r new s' old.
           trackClick now code r s = (Some new, s') \<and> cache s code = Some old \<longrightarrow>
           cache s' code = Some new \<and> clicks old < clicks new)"
  proof (intro impI allI)
    fix now r new s' old
    assume reach: "reachable E s"
      and step: "trackClick now code r s = (Some new, s') \<and> cache s code = Some old"
    have coh: "coherent s" using reach by (rule reachable_coherent)
    obtain u where u: "store s code = Some u"
      using step by (cases "store s code") (auto simp: trackClick_missing)
    have new: "new = u\<lparr>clicks := clicks u + 1, analytics := analytics u @ [clickOf now r]\<rparr>"
      and s': "cache s' code = Some new"
      using step unfolding trackClick_stored [OF u] by auto
    have "clicks old \<le> clicks u"
      using coherentD [OF coh, of code] u step by (simp add: coherentAt_def)
    then show "cache s' code = Some new \<and> clicks old < clicks new"
      using s' by (simp add: new)
  qed
qed

theorem cacheRefresh_overwrites_witness:
  "reachable demoEnv demoCreated \<and> cache demoCreated ''abc'' = Some demoUrl
   \<and> fst (trackClick 1 ''abc'' chromeRequest demoCreated)
        = Some (demoUrl\<lparr>clicks := 1, analytics := [clickOf 1 chromeRequest]\<rparr>)
   \<and> cache (snd (trackClick 1 ''abc'' chromeRequest demoCreated)) ''abc''
        = Some (demoUrl\<lparr>clicks := 1, analytics := [clickOf 1 chromeRequest]\<rparr>)
   \<and> clicks demoUrl < clicks (demoUrl\<lparr>clicks := 1, analytics := [clickOf 1 chromeRequest]\<rparr>)"
proof -
  have c: "cache demoCreated ''abc'' = Some demoUrl" by (simp add: demoCreated_eq)
  have st: "store demoCreated ''abc'' = Some demoUrl" by (simp add: demoCreated_eq)
  have tcf: "fst (trackClick 1 ''abc'' chromeRequest demoCreated)
      = Some (demoUrl\<lparr>clicks := 1, analytics := [clickOf 1 chromeRequest]\<rparr>)"
    unfolding trackClick_stored [OF st] by (simp add: demoUrl_def)
  then have tc: "trackClick 1 ''abc'' chromeRequest demoCreated =
      (Some (demoUrl\<lparr>clicks := 1, analytics := [clickOf 1 chromeRequest]\<rparr>),
       snd (trackClick 1 ''abc'' chromeRequest demoCreated))"
    by (metis prod.collapse)
  note inst = cacheRefresh_overwrites [of "''abc''" demoUrl demoCreated demoEnv]
  from inst reachable_demoCreated tc c
  have "cache (snd (trackClick 1 ''abc'' chromeRequest demoCreated)) ''abc''
        = Some (demoUrl\<lparr>clicks := 1, analytics := [clickOf 1 chromeRequest]\<rparr>)
     \<and> clicks demoUrl < clicks (demoUrl\<lparr>clicks := 1, analytics := [clickOf 1 chromeRequest]\<rparr>)"
    by blast
  then show ?thesis using reachable_demoCreated c tcf by simp
qed

text \<open>
  The claim as stated fails: with the two clicks above, the refresh of the first click
  replaces the cached document of 2 clicks by the document of 1 click.
\<close>

theorem cacheRefresh_replaces_newer:
  "map_option clicks (fst firstUpdate) = Some 1
   \<and> map_option clicks (fst secondUpdate) = Some 2
   \<and> map_option clicks (cache secondRefreshed ''abc'') = Some 2
   \<and> map_option clicks (cache firstRefreshed ''abc'') = Some 1
   \<and> map_option clicks (store firstRefreshed ''abc'') = Some 2"
  by (simp add: firstRefreshed_def secondRefreshed_def secondUpdate_def firstUpdate_def
      findOneAndUpdate_def cacheRefresh_def demoCreated_eq demoUrl_def Let_def)

subsection \<open>Browser and referrer statistics\<close>

lemma bump_other: "k' \<noteq> k \<Longrightarrow> bump obj k k' = obj k'"
  by (cases "obj k"; cases "the (obj k)") (simp_all add: bump_def)

lemma bump_count:
  "k \<notin> set objectPrototypeKeys \<Longrightarrow> obj k = countAs n \<Longrightarrow> bump obj k k = countAs (Suc n)"
  by (auto simp: bump_def countAs_def split: option.splits jsval.splits if_splits)

lemma foldl_bump_count:
  "k \<notin> set objectPrototypeKeys \<Longrightarrow> obj k = countAs n \<Longrightarrow>
   foldl bump obj ks k = countAs (n + length (filter (\<lambda>x. x = k) ks))"
proof (induction ks arbitrary: obj n)
  case Nil
  then show ?case by simp
next
  case (Cons x ks)
  show ?case
  proof (cases "x = k")
    case True
    have "bump obj x k = countAs (Suc n)"
      using Cons.prems True by (simp add: bump_count)
    from Cons.IH [of "bump obj x" "Suc n", OF Cons.prems(1) this] show ?thesis using True by simp
  next
    case False
    have "bump obj x k = countAs n"
      using Cons.prems False by (simp add: bump_other)
    from Cons.IH [of "bump obj x" n, OF Cons.prems(1) this] show ?thesis using False by simp
  qed
qed

lemma foldl_bump_untouched: "k \<notin> set ks \<Longrightarrow> foldl bump obj ks k = obj k"
  by (induction ks arbitrary: obj) (auto simp: bump_other)

lemma countClick_present:
  "userAgent c \<noteq> None \<Longrightarrow>
   countClick E c a =
     Inr (a\<lparr>browserStats := bump (browserStats a) (browserOf c),
            referrerStats := bump (referrerStats a) (referrerOf c),
            clicksByDate := bump (clicksByDate a) (toISODate E (timestamp c))\<rparr>)"
  by (auto simp: countClick_def browserOf_def getBrowserFromUserAgent_def)

lemma forEachClick_present:
  "\<forall>c \<in> set cs. userAgent c \<noteq> None \<Longrightarrow>
   forEachClick E cs a =
     Inr (a\<lparr>browserStats := foldl bump (browserStats a) (map browserOf cs),
            referrerStats := foldl bump (referrerStats a) (map referrerOf cs),
            clicksByDate := foldl bump (clicksByDate a) (map (\<lambda>c. toISODate E (timestamp c)) cs)\<rparr>)"
proof (induction cs arbitrary: a)
  case Nil
  then show ?case by simp
next
  case (Cons c cs)
  then show ?case by (simp add: countClick_present)
qed

lemma browserOf_labels:
  "userAgent c \<noteq> None \<Longrightarrow>
   browserOf c \<in> {''Chrome'', ''Firefox'', ''Safari'', ''Edge'', ''Other''}"
  by (cases "userAgent c") (simp_all add: browserOf_def getBrowserFromUserAgent_def)

lemma labels_not_inherited:
  "b \<in> {''Chrome'', ''Firefox'', ''Safari'', ''Edge'', ''Other'', ''Direct''} \<Longrightarrow>
   b \<notin> set objectPrototypeKeys"
  by (auto simp: objectPrototypeKeys_def)

text \<open>
  What getUrlStats computes for a log in which every click has a userAgent: the document's
  clicks, for every browser label the number of clicks the classifier gives that label,
  and for every referrer key that is not a property name of \<^verbatim>\<open>Object.prototype\<close> the
  number of clicks with that referrer, absent and empty referers counted under Direct.
\<close>

lemma getUrlStats_counts:
  assumes "store s code = Some u" "\<forall>c \<in> set (analytics u). userAgent c \<noteq> None"
  shows "\<exists>st. getUrlStats E now code s = Inr st \<and> totalClicks st = clicks u
     \<and> (\<forall>b. browserStats st b =
            (if b \<in> {''Chrome'', ''Firefox'', ''Safari'', ''Edge'', ''Other''}
             then countAs (length (filter (\<lambda>c. browserOf c = b) (analytics u))) else None))
     \<and> (\<forall>k. k \<notin> set objectPrototypeKeys \<longrightarrow>
            referrerStats st k = countAs (length (filter (\<lambda>c. referrerOf c = k) (analytics u))))"
proof -
  let ?cs = "analytics u"
  have none: "Map.empty k = countAs 0" for k :: string by (simp add: countAs_def)
  have b: "foldl bump Map.empty (map browserOf ?cs) b =
            (if b \<in> {''Chrome'', ''Firefox'', ''Safari'', ''Edge'', ''Other''}
             then countAs (length (filter (\<lambda>c. browserOf c = b) ?cs)) else None)" for b
  proof (cases "b \<in> {''Chrome'', ''Firefox'', ''Safari'', ''Edge'', ''Other''}")
    case True
    then have "b \<notin> set objectPrototypeKeys" using labels_not_inherited by blast
    from foldl_bump_count [OF this none, of "map browserOf ?cs"] True
    show ?thesis by (simp add: comp_def)
  next
    case False
    then have "b \<notin> set (map browserOf ?cs)"
      using browserOf_labels assms(2) by fastforce
    then show ?thesis using False by (simp add: foldl_bump_untouched)
  qed
  have r: "k \<notin> set objectPrototypeKeys \<Longrightarrow>
      foldl bump Map.empty (map referrerOf ?cs) k =
        countAs (length (filter (\<lambda>c. referrerOf c = k) ?cs))" for k
    using foldl_bump_count [OF _ none, of k "map referrerOf ?cs"]
    by (simp add: comp_def)
  have fields: "browserStats a = Map.empty \<Longrightarrow> referrerStats a = Map.empty \<Longrightarrow>
      \<exists>st. forEachClick E ?cs a = Inr st \<and> totalClicks st = totalClicks a
        \<and> browserStats st = foldl bump Map.empty (map browserOf ?cs)
        \<and> referrerStats st = foldl bump Map.empty (map referrerOf ?cs)" for a
    by (simp add: forEachClick_present [OF assms(2)])
  let ?a0 = "\<lparr>totalClicks = clicks u, browserStats = Map.empty, referrerStats = Map.empty,
              clicksByDate = Map.empty, lastClicked = None, averageClicksPerDay = Number0\<rparr>"
  let ?a1 = "if ?cs \<noteq> []
             then ?a0\<lparr>lastClicked := Some (timestamp (last ?cs)),
                      averageClicksPerDay :=
                        Fixed2 (toFixed2 (jsDiv (int (clicks u))
                          (daysSinceCreation now (timestamp (hd ?cs)))))\<rparr>
             else ?a0"
  have run: "getUrlStats E now code s = forEachClick E ?cs ?a1"
    using assms(1) by (simp add: getUrlStats_def Let_def)
  have "browserStats ?a1 = Map.empty" "referrerStats ?a1 = Map.empty" "totalClicks ?a1 = clicks u"
    by simp_all
  with fields [of ?a1] obtain st where st: "forEachClick E ?cs ?a1 = Inr st"
    "totalClicks st = clicks u"
    "browserStats st = foldl bump Map.empty (map browserOf ?cs)"
    "referrerStats st = foldl bump Map.empty (map referrerOf ?cs)"
    by auto
  show ?thesis
    unfolding run st(1) using st(2-4) b r by simp
qed

lemma bump_inherited:
  "bump Map.empty ''constructor'' ''constructor'' = Some NotNum"
  "bump Map.empty ''__proto__'' = Map.empty"
  by (simp_all add: bump_def objectPrototypeKeys_def)

text \<open>
  C7: for a log in which every click has a userAgent the claim holds (lemma
  \<open>getUrlStats_counts\<close>; referrer keys that name a property of \<^verbatim>\<open>Object.prototype\<close>
  apart). A click without a userAgent matches none of the four browsers, and the claim
  counts it as Other; getUrlStats fails instead. Here the log of abc holds a click from
  Chrome and a click without the header User-Agent.
\<close>

theorem getUrlStats_fails_on_mixed_log:
  "store mixedClicks ''abc''
     = Some (demoUrl\<lparr>clicks := 2,
                      analytics := [clickOf 1 chromeRequest, clickOf 2 noUserAgent]\<rparr>)
   \<and> getBrowserFromUserAgent (userAgent (clickOf 1 chromeRequest)) = Inr ''Chrome''
   \<and> userAgent (clickOf 2 noUserAgent) = None
   \<and> getUrlStats demoEnv 3 ''abc'' mixedClicks = Inl TypeError"
proof -
  let ?u1 = "demoUrl\<lparr>clicks := clicks demoUrl + 1,
                      analytics := analytics demoUrl @ [clickOf 1 chromeRequest]\<rparr>"
  let ?u2 = "?u1\<lparr>clicks := clicks ?u1 + 1, analytics := analytics ?u1 @ [clickOf 2 noUserAgent]\<rparr>"
  have st: "store demoCreated ''abc'' = Some demoUrl" by (simp add: demoCreated_eq)
  have st1: "store (snd (trackClick 1 ''abc'' chromeRequest demoCreated)) ''abc'' = Some ?u1"
    unfolding trackClick_stored [OF st] by simp
  have st2: "store mixedClicks ''abc'' = Some ?u2"
    unfolding mixedClicks_def trackClick_stored [OF st1] by simp
  have u2: "?u2 = demoUrl\<lparr>clicks := 2,
                      analytics := [clickOf 1 chromeRequest, clickOf 2 noUserAgent]\<rparr>"
    by (simp add: demoUrl_def)
  have none: "userAgent (clickOf 2 noUserAgent) = None"
    by (simp add: clickOf_def noUserAgent_def)
  have chrome: "getBrowserFromUserAgent (userAgent (clickOf 1 chromeRequest)) = Inr ''Chrome''"
    by (simp add: clickOf_def chromeRequest_def getBrowserFromUserAgent_def includesStr_def)
  have "\<exists>c \<in> set (analytics ?u2). userAgent c = None"
    using none by simp
  then have "getUrlStats demoEnv 3 ''abc'' mixedClicks = Inl TypeError"
    using st2 by (simp add: getUrlStats_def Let_def forEachClick_absent del: Set.bex_simps)
  then show ?thesis using st2 u2 none chrome by simp
qed

subsection \<open>Rounding of JavaScript numbers\<close>

lemma pow2_powi: "pow2 k = 2 powi k"
proof (cases "0 \<le> k")
  case True
  then show ?thesis unfolding pow2_def power_int_def by simp
next
  case False
  have "(1 :: rat) / 2 ^ nat (- k) = inverse 2 ^ nat (- k)"
    by (simp only: power_one_over inverse_eq_divide)
  then show ?thesis using False unfolding pow2_def power_int_def by (simp only: if_False)
qed

lemma pow2_pos: "0 < pow2 k"
  unfolding pow2_powi by (rule zero_less_power_int) simp


lemma pow2_pred: "pow2 (k - 1) = pow2 k / 2"
proof -
  have "(2 :: rat) powi (k - 1) = 2 powi k / 2 powi 1"
    by (rule power_int_diff) simp
  then show ?thesis unfolding pow2_powi by simp
qed

lemma pow2_nonneg: "0 \<le> k \<Longrightarrow> pow2 k = of_int (2 ^ nat k)"
  unfolding pow2_def by simp

lemma bits_bounds: "0 < n \<Longrightarrow> 2 ^ (bits n - 1) \<le> n \<and> n < 2 ^ bits n"
proof (induction n rule: bits.induct)
  case (1 n)
  show ?case
  proof (cases "n div 2 = 0")
    case True
    then have "n = 1" using "1.prems" by linarith
    then show ?thesis by (simp add: bits.simps)
  next
    case False
    then have pos: "0 < n div 2" using "1.prems" by linarith
    have IH: "2 ^ (bits (n div 2) - 1) \<le> n div 2 \<and> n div 2 < 2 ^ bits (n div 2)"
      using "1.IH" "1.prems" pos by simp
    have b: "bits n = Suc (bits (n div 2))" using "1.prems" by (subst bits.simps) simp
    have bp: "0 < bits (n div 2)" using pos by (subst bits.simps) simp
    then obtain m where m: "bits (n div 2) = Suc m" by (cases "bits (n div 2)") auto
    show ?thesis using IH unfolding b m by simp linarith
  qed
qed

lemma bits_pos: "0 < n \<Longrightarrow> 0 < bits n"
  by (subst bits.simps) simp


lemma pow2_add: "pow2 (j + k) = pow2 j * pow2 k"
  unfolding pow2_powi by (rule power_int_add) simp

lemma bits_pow2:
  assumes "0 < n"
  shows "pow2 (int (bits n)) / 2 \<le> of_int n" "of_int n < pow2 (int (bits n))"
proof -
  from bits_bounds [OF assms] have lo: "2 ^ (bits n - 1) \<le> n" and hi: "n < 2 ^ bits n" by auto
  obtain m where m: "bits n = Suc m" using bits_pos [OF assms] by (cases "bits n") auto
  have p: "pow2 (int (bits n)) = of_int (2 ^ bits n)" by (simp add: pow2_nonneg)
  have "pow2 (int (Suc m)) = of_int (2 ^ nat (int (Suc m)))" by (rule pow2_nonneg) simp
  also have "\<dots> = 2 * of_int (2 ^ m)" by (simp only: nat_int power_Suc of_int_mult of_int_numeral)
  finally have p2: "pow2 (int (bits n)) / 2 = of_int (2 ^ m)" unfolding m by simp
  have "(of_int (2 ^ m) :: rat) \<le> of_int n"
    using lo unfolding m by (simp only: of_int_le_iff diff_Suc_1)
  then show "pow2 (int (bits n)) / 2 \<le> of_int n" unfolding p2 .
  have "(of_int n :: rat) < of_int (2 ^ bits n)" using hi by (simp only: of_int_less_iff)
  then show "of_int n < pow2 (int (bits n))" unfolding p .
qed

lemma shift64_range:
  assumes "0 < x"
  shows "2 ^ 52 \<le> x * pow2 (shift64 x)" "x * pow2 (shift64 x) < 2 ^ 53"
proof -
  obtain n d where q: "quotient_of x = (n, d)" by (cases "quotient_of x")
  have d: "0 < d" using q by (rule quotient_of_denom_pos)
  have x: "x = of_int n / of_int d" using q by (rule quotient_of_div)
  have n: "0 < n" using assms d unfolding x by (simp add: zero_less_divide_iff)
  define k where "k = 53 - (int (bits n) - int (bits d))"
  define A where "A = pow2 (int (bits n))"
  define B where "B = pow2 (int (bits d))"
  define P where "P = pow2 k"
  define N :: rat where "N = of_int n"
  define D :: rat where "D = of_int d"
  have sh: "shift64 x = (if 2 ^ 53 \<le> x * pow2 k then k - 1 else k)"
    unfolding shift64_def q k_def by (simp add: Let_def)
  have Ppos: "0 < P" and Apos: "0 < A" and Bpos: "0 < B"
    unfolding P_def A_def B_def by (rule pow2_pos)+
  have Dpos: "0 < D" unfolding D_def using d by simp
  have N: "A / 2 \<le> N" "N < A" unfolding A_def N_def using bits_pow2 [OF n] by auto
  have D: "B / 2 \<le> D" "D < B" unfolding B_def D_def using bits_pow2 [OF d] by auto
  have "k + int (bits n) = 53 + int (bits d)" unfolding k_def by simp
  then have "pow2 (k + int (bits n)) = pow2 (53 + int (bits d))" by simp
  then have PA: "P * A = 2 ^ 53 * B"
    unfolding pow2_add P_def A_def B_def by (simp add: pow2_def)
  have xP: "x * pow2 k = N * P / D" unfolding x N_def D_def P_def by simp
  have lo: "2 ^ 52 < N * P / D"
  proof -
    have "2 ^ 52 * D < 2 ^ 52 * B" using D(2) by simp
    also have "\<dots> = (A / 2) * P" using PA by (simp add: mult.commute)
    also have "\<dots> \<le> N * P" using N(1) Ppos by (simp only: mult_le_cancel_right_pos)
    finally show ?thesis using Dpos by (simp add: pos_less_divide_eq)
  qed
  have hi: "N * P / D < 2 ^ 54"
  proof -
    have "N * P < A * P" using N(2) Ppos by (simp only: mult_less_cancel_right_pos)
    also have "\<dots> = 2 ^ 53 * B" using PA by (simp add: mult.commute)
    also have "\<dots> \<le> 2 ^ 54 * D" using D(1) by simp
    finally show ?thesis using Dpos by (simp add: pos_divide_less_eq)
  qed
  show "2 ^ 52 \<le> x * pow2 (shift64 x)"
    using lo unfolding sh xP [symmetric] by (simp add: pow2_pred)
  show "x * pow2 (shift64 x) < 2 ^ 53"
    using hi unfolding sh xP [symmetric] by (simp add: pow2_pred)
qed


lemma roundHalfEven_cases:
  "roundHalfEven y = \<lfloor>y\<rfloor> \<or> roundHalfEven y = \<lfloor>y\<rfloor> + 1"
  unfolding roundHalfEven_def Let_def by simp

lemma roundHalfEven_error: "\<bar>of_int (roundHalfEven y) - y\<bar> \<le> 1 / 2"
proof -
  have f: "of_int \<lfloor>y\<rfloor> \<le> y" "y < of_int \<lfloor>y\<rfloor> + 1" by linarith+
  show ?thesis
    unfolding roundHalfEven_def Let_def using f
    by (simp add: abs_le_iff)
qed

lemma roundHalfEven_le: "y \<le> of_int m \<Longrightarrow> roundHalfEven y \<le> m"
proof -
  assume le: "y \<le> of_int m"
  then have fm: "\<lfloor>y\<rfloor> \<le> m" by (simp add: floor_le_iff)
  show ?thesis
  proof (cases "\<lfloor>y\<rfloor> = m")
    case True
    then have "y - of_int \<lfloor>y\<rfloor> \<le> 0" using le by simp
    then have "y - of_int \<lfloor>y\<rfloor> < 1 / 2" by linarith
    then show ?thesis unfolding roundHalfEven_def Let_def using True by simp
  next
    case False
    then have "\<lfloor>y\<rfloor> + 1 \<le> m" using fm by linarith
    then show ?thesis using roundHalfEven_cases [of y] by linarith
  qed
qed

lemma roundHalfEven_ge: "of_int m \<le> y \<Longrightarrow> m \<le> roundHalfEven y"
proof -
  assume "of_int m \<le> y"
  then have "m \<le> \<lfloor>y\<rfloor>" by (simp add: le_floor_iff)
  then show ?thesis using roundHalfEven_cases [of y] by linarith
qed


lemma round64_pos_eq:
  "0 < x \<Longrightarrow> round64 x = of_int (roundHalfEven (x * pow2 (shift64 x))) / pow2 (shift64 x)"
  unfolding round64_def Let_def by simp

lemma round64_error:
  assumes "0 < x"
  shows "\<bar>round64 x - x\<bar> \<le> x / 2 ^ 53"
proof -
  define P where "P = pow2 (shift64 x)"
  define m :: rat where "m = of_int (roundHalfEven (x * P))"
  have P: "0 < P" unfolding P_def by (rule pow2_pos)
  have r: "round64 x = m / P" unfolding m_def P_def using assms by (rule round64_pos_eq)
  have e: "\<bar>m - x * P\<bar> \<le> 1 / 2" unfolding m_def by (rule roundHalfEven_error)
  have lo: "2 ^ 52 \<le> x * P" unfolding P_def using assms by (rule shift64_range)
  have "round64 x - x = (m - x * P) / P" unfolding r using P by (simp add: field_simps)
  then have "\<bar>round64 x - x\<bar> = \<bar>m - x * P\<bar> / P" using P by (simp add: abs_divide)
  also have "\<dots> \<le> (1 / 2) / P" using e P by (simp only: divide_le_cancel) simp
  also have "\<dots> \<le> x / 2 ^ 53"
  proof -
    have "1 \<le> x * P / 2 ^ 52" using lo by simp
    then have "1 / P \<le> x / 2 ^ 52" using P by (simp add: field_simps)
    then show ?thesis by simp
  qed
  finally show ?thesis .
qed

lemma round64_positive: "0 < x \<Longrightarrow> 0 < round64 x"
proof -
  assume x: "0 < x"
  have "(2 :: rat) ^ 52 = of_int (2 ^ 52)" by simp
  then have "of_int (2 ^ 52) \<le> x * pow2 (shift64 x)" using shift64_range(1) [OF x] by simp
  then have "2 ^ 52 \<le> roundHalfEven (x * pow2 (shift64 x))" by (rule roundHalfEven_ge)
  moreover have "(0 :: int) < 2 ^ 52" by simp
  ultimately have "0 < roundHalfEven (x * pow2 (shift64 x))" by (rule less_le_trans [rotated])
  then show ?thesis unfolding round64_pos_eq [OF x] using pow2_pos [of "shift64 x"] by simp
qed

lemma round64_nonpos: "x \<le> 0 \<Longrightarrow> round64 x \<le> 0"
proof (cases "x = 0")
  case True
  then show ?thesis by (simp add: round64_def)
next
  case False
  assume "x \<le> 0"
  then have neg: "x < 0" using False by simp
  then have ax: "0 < \<bar>x\<bar>" by simp
  have "round64 x = - round64 \<bar>x\<bar>"
    using neg unfolding round64_def Let_def by simp
  then show ?thesis using round64_positive [OF ax] by simp
qed

lemma shift64_nonneg:
  assumes "0 < x" "x < 2 ^ 53"
  shows "0 \<le> shift64 x"
proof (rule ccontr)
  assume neg: "\<not> 0 \<le> shift64 x"
  define j where "j = nat (- shift64 x)"
  have j: "1 \<le> j" unfolding j_def using neg by simp
  have p: "pow2 (shift64 x) = 1 / 2 ^ j" unfolding pow2_def j_def using neg by simp
  have "(2 :: rat) ^ 1 \<le> 2 ^ j" using j by (intro power_increasing) simp_all
  then have two: "(2 :: rat) \<le> 2 ^ j" by simp
  have "(1 :: rat) / 2 ^ j \<le> 1 / 2"
    by (rule divide_left_mono [OF two]) simp_all
  then have "pow2 (shift64 x) \<le> 1 / 2" unfolding p .
  then have "x * pow2 (shift64 x) \<le> x * (1 / 2)"
    using assms(1) by (simp only: mult_le_cancel_left_pos)
  then have "x * pow2 (shift64 x) < 2 ^ 52" using assms(2) by simp
  then show False using shift64_range(1) [OF assms(1)] by simp
qed

lemma round64_le_int:
  assumes "0 < x" "x < 2 ^ 53" "x \<le> of_int c"
  shows "round64 x \<le> of_int c"
proof -
  define k where "k = nat (shift64 x)"
  have P: "pow2 (shift64 x) = of_int (2 ^ k)"
    unfolding k_def using shift64_nonneg [OF assms(1,2)] by (rule pow2_nonneg)
  have Ppos: "(0 :: rat) < of_int (2 ^ k)" by simp
  have "x * of_int (2 ^ k) \<le> of_int c * of_int (2 ^ k)"
    using assms(3) Ppos by (simp only: mult_le_cancel_right_pos)
  then have "x * of_int (2 ^ k) \<le> of_int (c * 2 ^ k)" by simp
  then have "roundHalfEven (x * of_int (2 ^ k)) \<le> c * 2 ^ k" by (rule roundHalfEven_le)
  then have "(of_int (roundHalfEven (x * of_int (2 ^ k))) :: rat) \<le> of_int (c * 2 ^ k)"
    by (simp only: of_int_le_iff)
  then have "(of_int (roundHalfEven (x * of_int (2 ^ k))) :: rat) / of_int (2 ^ k) \<le> of_int c"
    using Ppos by (simp add: pos_divide_le_eq)
  then show ?thesis unfolding round64_pos_eq [OF assms(1)] P .
qed


lemma daysSinceCreation_exact:
  assumes "now - first < 2 ^ 53"
  shows "daysSinceCreation now first = max 1 \<lceil>(of_int (now - first) :: rat) / 86400000\<rceil>"
proof -
  define delta where "delta = now - first"
  define x :: rat where "x = of_int delta / 86400000"
  have js: "jsDiv (now - first) (1000 * 60 * 60 * 24) = round64 x"
    unfolding jsDiv_def x_def delta_def by simp
  have goal: "max 1 \<lceil>round64 x\<rceil> = max 1 \<lceil>x\<rceil>"
  proof (cases "0 < delta")
    case False
    then have "x \<le> 0" unfolding x_def by (simp add: divide_nonpos_pos)
    then have "round64 x \<le> 0" "x \<le> 0" using round64_nonpos by auto
    then have "\<lceil>round64 x\<rceil> \<le> 0" "\<lceil>x\<rceil> \<le> 0" by (simp_all add: ceiling_le_iff)
    then show ?thesis by simp
  next
    case True
    then have xpos: "0 < x" unfolding x_def by simp
    have "(of_int delta :: rat) < of_int (2 ^ 53)"
      using assms unfolding delta_def by (simp only: of_int_less_iff)
    then have dlt: "(of_int delta :: rat) < 2 ^ 53" by simp
    have "x \<le> of_int delta" unfolding x_def using True by (simp add: field_simps)
    then have xlt: "x < 2 ^ 53" using dlt by linarith
    have up: "round64 x \<le> of_int \<lceil>x\<rceil>"
      by (rule round64_le_int [OF xpos xlt]) simp
    have "(of_int \<lceil>x\<rceil> :: rat) - 1 < x" by linarith
    then have "(of_int (\<lceil>x\<rceil> - 1) :: rat) * 86400000 < of_int delta"
      unfolding x_def by (simp add: field_simps)
    then have "(of_int ((\<lceil>x\<rceil> - 1) * 86400000) :: rat) < of_int delta" by simp
    then have "(\<lceil>x\<rceil> - 1) * 86400000 < delta" by (simp only: of_int_less_iff)
    then have "(\<lceil>x\<rceil> - 1) * 86400000 + 1 \<le> delta" by simp
    then have "(of_int ((\<lceil>x\<rceil> - 1) * 86400000 + 1) :: rat) \<le> of_int delta"
      by (simp only: of_int_le_iff)
    then have gap: "of_int \<lceil>x\<rceil> - 1 + 1 / 86400000 \<le> x"
      unfolding x_def by (simp add: field_simps)
    have "x / 2 ^ 53 < 1 / 86400000"
      unfolding x_def using dlt by (simp add: field_simps)
    moreover have "- (round64 x - x) \<le> x / 2 ^ 53"
      using round64_error [OF xpos] by (rule abs_le_D2)
    ultimately have "of_int \<lceil>x\<rceil> - 1 < round64 x" using gap by linarith
    then have "of_int (\<lceil>x\<rceil> - 1) < round64 x" by simp
    then have "\<lceil>x\<rceil> - 1 < \<lceil>round64 x\<rceil>" by (simp only: less_ceiling_iff)
    moreover have "\<lceil>round64 x\<rceil> \<le> \<lceil>x\<rceil>" using up by (simp add: ceiling_le_iff)
    ultimately have "\<lceil>round64 x\<rceil> = \<lceil>x\<rceil>" by linarith
    then show ?thesis by simp
  qed
  show ?thesis
    unfolding daysSinceCreation_def js using goal unfolding x_def delta_def .
qed

lemma toFixed2_jsDiv:
  assumes "0 \<le> c" "1 \<le> d" "200 * c < 2 ^ 53"
  shows "\<bar>of_int (toFixed2 (jsDiv c d)) / 100 - (of_int c :: rat) / of_int d\<bar> \<le> 1 / 200"
proof -
  define q :: rat where "q = of_int c / of_int d"
  define r where "r = round64 q"
  define n where "n = toFixed2 r"
  have dpos: "(0 :: rat) < of_int d" using assms(2) by simp
  have qnn: "0 \<le> q" unfolding q_def using assms(1) dpos by simp
  have err: "\<bar>r - q\<bar> \<le> q / 2 ^ 53"
  proof (cases "q = 0")
    case True
    then show ?thesis unfolding r_def by (simp add: round64_def)
  next
    case False
    then have "0 < q" using qnn by simp
    then show ?thesis unfolding r_def by (rule round64_error)
  qed
  have n1: "of_int n \<le> 100 * r + 1 / 2" and n2: "100 * r + 1 / 2 < of_int n + 1"
    unfolding n_def toFixed2_def by linarith+
  define e where "e = q / 2 ^ 53"
  have e1: "r - q \<le> e" unfolding e_def using err by (rule abs_le_D1)
  have e2: "- (r - q) \<le> e" unfolding e_def using err by (rule abs_le_D2)
  have "of_int n - 100 * q \<le> 1 / 2 + 100 * e" "- (of_int n - 100 * q) \<le> 1 / 2 + 100 * e"
    using n1 n2 e1 e2 by linarith+
  then have "\<bar>of_int n - 100 * q\<bar> \<le> 1 / 2 + 100 * e" by (rule abs_leI)
  then have "\<bar>of_int n - 100 * q\<bar> \<le> 1 / 2 + 100 * (q / 2 ^ 53)" unfolding e_def .
  then have "\<bar>of_int n - 100 * q\<bar> * (2 * of_int d) \<le> (1 / 2 + 100 * (q / 2 ^ 53)) * (2 * of_int d)"
    using dpos by (intro mult_right_mono) simp_all
  moreover have "\<bar>of_int n - 100 * q\<bar> * (2 * of_int d) = \<bar>of_int (2 * n * d - 200 * c)\<bar>"
  proof -
    have "(of_int n - 100 * q) * (2 * of_int d) = of_int (2 * n * d - 200 * c)"
      unfolding q_def using dpos by (simp add: field_simps)
    then have "\<bar>of_int (2 * n * d - 200 * c) :: rat\<bar> = \<bar>of_int n - 100 * q\<bar> * \<bar>2 * of_int d\<bar>"
      by (simp only: abs_mult [symmetric])
    then show ?thesis using dpos by simp
  qed
  moreover have "(1 / 2 + 100 * (q / 2 ^ 53)) * (2 * of_int d) = of_int d + of_int (200 * c) / 2 ^ 53"
    unfolding q_def using dpos by (simp add: field_simps)
  moreover have "(of_int (200 * c) :: rat) / 2 ^ 53 < 1"
  proof -
    have "(of_int (200 * c) :: rat) < of_int (2 ^ 53)" using assms(3) by (simp only: of_int_less_iff)
    then show ?thesis by simp
  qed
  ultimately have "\<bar>of_int (2 * n * d - 200 * c) :: rat\<bar> < of_int (d + 1)" by simp
  then have "(of_int \<bar>2 * n * d - 200 * c\<bar> :: rat) < of_int (d + 1)" by simp
  then have "\<bar>2 * n * d - 200 * c\<bar> < d + 1" by (simp only: of_int_less_iff)
  then have "\<bar>2 * n * d - 200 * c\<bar> \<le> d" by simp
  then have "(of_int \<bar>2 * n * d - 200 * c\<bar> :: rat) \<le> of_int d" by (simp only: of_int_le_iff)
  then have "\<bar>(of_int (2 * n * d - 200 * c) :: rat)\<bar> / (200 * of_int d) \<le> 1 / 200"
    using dpos by (simp add: field_simps)
  moreover have "of_int n / 100 - q = of_int (2 * n * d - 200 * c) / (200 * of_int d)"
    unfolding q_def using dpos by (simp add: field_simps)
  ultimately have "\<bar>of_int n / 100 - q\<bar> \<le> 1 / 200"
    using dpos by (simp add: abs_divide)
  then show ?thesis unfolding n_def r_def q_def jsDiv_def .
qed

subsection \<open>Average clicks per day\<close>

lemma countClick_average:
  "countClick E c a = Inr a' \<Longrightarrow> averageClicksPerDay a' = averageClicksPerDay a"
  by (auto simp: countClick_def split: sum.splits)

lemma forEachClick_average:
  "forEachClick E cs a = Inr st \<Longrightarrow> averageClicksPerDay st = averageClicksPerDay a"
proof (induction cs arbitrary: a)
  case Nil
  then show ?case by simp
next
  case (Cons c cs)
  then obtain a' where a': "countClick E c a = Inr a'" "forEachClick E cs a' = Inr st"
    by (cases "countClick E c a") auto
  show ?case using Cons.IH [OF a'(2)] countClick_average [OF a'(1)] by simp
qed

lemma getUrlStats_average:
  assumes "store s code = Some u" "getUrlStats E now code s = Inr st"
  shows "averageClicksPerDay st =
           (if analytics u \<noteq> []
            then Fixed2 (toFixed2 (jsDiv (int (clicks u))
                   (daysSinceCreation now (timestamp (hd (analytics u))))))
            else Number0)"
  using assms forEachClick_average [of E "analytics u" _ st]
  by (auto simp: getUrlStats_def Let_def split: if_splits)

text \<open>
  C8: when getUrlStats returns statistics for a stored document, averageClicksPerDay is
  the number 0 if the click log is empty. Otherwise it is the two-decimal string of a
  value \<open>n / 100\<close> that lies within half a hundredth of the exact quotient
  \<open>clicks / max(1, ceil((now - first) / 86400000))\<close>, \<open>first\<close> being the timestamp of
  the first click: the quotient rounded to two decimal places. (86400000 is one day in
  milliseconds. The bounds keep the operands exact as binary64 numbers. Where the exact
  quotient lies midway between two hundredths, the side is the one the binary64
  quotient falls on.)
\<close>

theorem averageClicksPerDay_rounded:
  assumes "store s code = Some u" "getUrlStats E now code s = Inr st"
  shows "(analytics u = [] \<longrightarrow> averageClicksPerDay st = Number0)
       \<and> (analytics u \<noteq> [] \<and> now - timestamp (hd (analytics u)) < 2 ^ 53
            \<and> 200 * int (clicks u) < 2 ^ 53 \<longrightarrow>
           (\<exists>n. averageClicksPerDay st = Fixed2 n \<and>
                \<bar>(of_int n :: rat) / 100 -
                  of_nat (clicks u) /
                    of_int (max 1 \<lceil>(of_int (now - timestamp (hd (analytics u))) :: rat)
                                     / 86400000\<rceil>)\<bar> \<le> 1 / 200))"
proof (intro conjI impI)
  assume "analytics u = []"
  then show "averageClicksPerDay st = Number0"
    using getUrlStats_average [OF assms] by simp
next
  assume h: "analytics u \<noteq> [] \<and> now - timestamp (hd (analytics u)) < 2 ^ 53
            \<and> 200 * int (clicks u) < 2 ^ 53"
  define d where "d = max 1 \<lceil>(of_int (now - timestamp (hd (analytics u))) :: rat) / 86400000\<rceil>"
  have days: "daysSinceCreation now (timestamp (hd (analytics u))) = d"
    unfolding d_def using h by (simp add: daysSinceCreation_exact)
  have avg: "averageClicksPerDay st = Fixed2 (toFixed2 (jsDiv (int (clicks u)) d))"
    using getUrlStats_average [OF assms] h days by simp
  have "1 \<le> d" unfolding d_def by simp
  then have "\<bar>of_int (toFixed2 (jsDiv (int (clicks u)) d)) / 100
              - (of_int (int (clicks u)) :: rat) / of_int d\<bar> \<le> 1 / 200"
    using h by (intro toFixed2_jsDiv) simp_all
  then show "\<exists>n. averageClicksPerDay st = Fixed2 n \<and>
                \<bar>(of_int n :: rat) / 100 -
                  of_nat (clicks u) /
                    of_int (max 1 \<lceil>(of_int (now - timestamp (hd (analytics u))) :: rat)
                                     / 86400000\<rceil>)\<bar> \<le> 1 / 200"
    using avg unfolding d_def by auto
qed

lemma oneClick_stored:
  "store oneClick ''abc'' = Some (demoUrl\<lparr>clicks := 1, analytics := [clickOf 1 chromeRequest]\<rparr>)"
proof -
  have st: "store demoCreated ''abc'' = Some demoUrl" by (simp add: demoCreated_eq)
  show ?thesis unfolding oneClick_def trackClick_stored [OF st] by (simp add: demoUrl_def)
qed

lemma average_demo: "toFixed2 (jsDiv 1 (daysSinceCreation 200000000 1)) = 33"
  by code_simp

theorem averageClicksPerDay_rounded_witness:
  "store oneClick ''abc'' = Some (demoUrl\<lparr>clicks := 1, analytics := [clickOf 1 chromeRequest]\<rparr>)
   \<and> (\<exists>st. getUrlStats demoEnv 200000000 ''abc'' oneClick = Inr st
          \<and> averageClicksPerDay st = Fixed2 33)
   \<and> \<bar>(33 :: rat) / 100 - 1 / 3\<bar> \<le> 1 / 200"
proof -
  let ?u = "demoUrl\<lparr>clicks := 1, analytics := [clickOf 1 chromeRequest]\<rparr>"
  have ua: "\<forall>c \<in> set (analytics ?u). userAgent c \<noteq> None"
    by (simp add: clickOf_def chromeRequest_def)
  obtain st where st: "getUrlStats demoEnv 200000000 ''abc'' oneClick = Inr st"
    using getUrlStats_counts [OF oneClick_stored ua] by blast
  have ts: "timestamp (hd (analytics ?u)) = 1" by (simp add: clickOf_def)
  note inst = averageClicksPerDay_rounded [OF oneClick_stored st]
  have avg: "averageClicksPerDay st = Fixed2 33"
    using getUrlStats_average [OF oneClick_stored st] ts average_demo by simp
  from inst avg ts
  have "\<bar>(of_int 33 :: rat) / 100 -
          of_nat 1 / of_int (max 1 \<lceil>(of_int (200000000 - 1) :: rat) / 86400000\<rceil>)\<bar> \<le> 1 / 200"
    by simp
  then have "\<bar>(33 :: rat) / 100 - 1 / 3\<bar> \<le> 1 / 200" by simp
  then show ?thesis using oneClick_stored st avg by blast
qed

end
